theory Spec2Isabelle
  imports Complex_Main "HOL-Library.AList" "HOL-Library.Sublist"
begin

section \<open>Word resolver service: data model\<close>

text \<open>
  Python floats (confidences, Unix timestamps in seconds) are modelled as exact reals,
  Python ints as \<open>int\<close> or \<open>nat\<close>, and \<open>str\<close> as \<open>string\<close>. The thresholds of the
  commit engine are compared exactly; rounding of IEEE doubles and NaN are outside the model.
\<close>

text \<open>models.py: LetterEntry, CommitCandidate, WordBuffer.\<close>

record LetterEntry =
  le_char :: string
  le_confidence :: real
  le_timestamp :: real

record CommitCandidate =
  cc_char :: string
  aggregate_confidence :: real
  cc_first_seen :: real
  cc_last_seen :: real
  cc_count :: nat

definition stability_duration_ms :: "CommitCandidate \<Rightarrow> real" where
  "stability_duration_ms c = (cc_last_seen c - cc_first_seen c) * 1000"

record WordBuffer =
  wb_session_id :: string
  wb_user_id :: string
  letters :: "string list"
  last_commit_time :: "real option"
  created_at :: real

definition current_word :: "WordBuffer \<Rightarrow> string" where
  "current_word b = concat (letters b)"

text \<open>\<open>time_since_last_commit_ms\<close> reads the clock; the reading is the argument \<open>now\<close>.\<close>

definition time_since_last_commit_ms :: "real \<Rightarrow> WordBuffer \<Rightarrow> real option" where
  "time_since_last_commit_ms now b =
     (case last_commit_time b of
        None \<Rightarrow> None
      | Some t \<Rightarrow> Some ((now - t) * 1000))"

text \<open>config.py: the settings the commit engine reads.\<close>

record Settings =
  window_duration_ms :: int
  stability_duration_ms_cfg :: int
  pause_duration_ms :: int
  max_consecutive_same :: int
  min_confidence :: real

definition default_settings :: Settings where
  "default_settings =
     \<lparr> window_duration_ms = 300, stability_duration_ms_cfg = 200,
       pause_duration_ms = 2000, max_consecutive_same = 1, min_confidence = 3 / 10 \<rparr>"

text \<open>\<open>CommitEngine.commit_min_confidence\<close>, fixed in the constructor.\<close>

definition commit_min_confidence :: real where
  "commit_min_confidence = 4 / 10"


section \<open>redis\_manager.py: the session store\<close>

text \<open>
  The store holds one list per key \<open>window:<session>\<close> and one value per key
  \<open>word:<session>\<close>. A missing list key reads as the empty list (\<open>LRANGE\<close>, \<open>LINDEX\<close>),
  a missing value key as \<open>None\<close>. The functions of this section describe calls that the
  store answers. Key expiry (the 300 s TTL) is an event of the consumer's run, and a call
  that raises (connection lost, socket timeout) is a flag of the environment of
  \<open>_finalize_word\<close>, where the order of hand-off and deletion makes it matter.
\<close>

record Redis =
  windows :: "string \<Rightarrow> LetterEntry list"
  words :: "string \<Rightarrow> WordBuffer option"

definition empty_redis :: Redis where
  "empty_redis = \<lparr> windows = (\<lambda>_. []), words = (\<lambda>_. None) \<rparr>"

definition push_letter :: "Redis \<Rightarrow> string \<Rightarrow> LetterEntry \<Rightarrow> Redis" where
  "push_letter r sid entry = r\<lparr> windows := (windows r)(sid := windows r sid @ [entry]) \<rparr>"

definition get_window :: "Redis \<Rightarrow> string \<Rightarrow> LetterEntry list" where
  "get_window r sid = windows r sid"

text \<open>
  The \<open>while True\<close> loop of \<open>prune_window\<close>: peek at the leftmost entry, pop it while its
  timestamp is below the cutoff, stop at the first entry that is not (or on the empty list).
  The second component counts the removed entries.
\<close>

fun prune_loop :: "LetterEntry list \<Rightarrow> real \<Rightarrow> nat \<Rightarrow> LetterEntry list \<times> nat" where
  "prune_loop [] cutoff removed = ([], removed)"
| "prune_loop (e # es) cutoff removed =
     (if le_timestamp e < cutoff then prune_loop es cutoff (removed + 1)
      else (e # es, removed))"

definition prune_window :: "Redis \<Rightarrow> string \<Rightarrow> real \<Rightarrow> Redis \<times> nat" where
  "prune_window r sid cutoff_timestamp =
     (let (w, removed_count) = prune_loop (windows r sid) cutoff_timestamp 0
      in (r\<lparr> windows := (windows r)(sid := w) \<rparr>, removed_count))"

definition clear_window :: "Redis \<Rightarrow> string \<Rightarrow> Redis" where
  "clear_window r sid = r\<lparr> windows := (windows r)(sid := []) \<rparr>"

definition set_word_buffer :: "Redis \<Rightarrow> WordBuffer \<Rightarrow> Redis" where
  "set_word_buffer r b = r\<lparr> words := (words r)(wb_session_id b := Some b) \<rparr>"

text \<open>
  \<open>get_word_buffer\<close> creates and stores an empty buffer when the key is missing; \<open>now\<close> is
  the clock reading that becomes \<open>created_at\<close>.
\<close>

definition get_word_buffer :: "real \<Rightarrow> Redis \<Rightarrow> string \<Rightarrow> string \<Rightarrow> Redis \<times> WordBuffer" where
  "get_word_buffer now r sid uid =
     (case words r sid of
        Some b \<Rightarrow> (r, b)
      | None \<Rightarrow>
          (let buffer = \<lparr> wb_session_id = sid, wb_user_id = uid, letters = [],
                           last_commit_time = None, created_at = now \<rparr>
           in (set_word_buffer r buffer, buffer)))"

definition append_to_word :: "real \<Rightarrow> Redis \<Rightarrow> string \<Rightarrow> string \<Rightarrow> string \<Rightarrow> Redis \<times> WordBuffer" where
  "append_to_word now r sid uid c =
     (let (r1, buffer) = get_word_buffer now r sid uid;
          buffer' = buffer\<lparr> letters := letters buffer @ [c], last_commit_time := Some now \<rparr>
      in (set_word_buffer r1 buffer', buffer'))"

definition clear_word_buffer :: "Redis \<Rightarrow> string \<Rightarrow> Redis" where
  "clear_word_buffer r sid = r\<lparr> words := (words r)(sid := None) \<rparr>"


section \<open>commit\_engine.py: the commit engine\<close>

text \<open>The per-character entry of the \<open>char_data\<close> dictionary of \<open>_find_top_candidate\<close>.\<close>

record CharData =
  total_confidence :: real
  cd_count :: nat
  first_seen :: real
  last_seen :: real

text \<open>
  \<open>char_data\<close> is a Python dict: keys are unique and iterate in insertion order. It is
  an association list; \<open>AList.update\<close> replaces the value of a present key in place and
  appends a new key at the end. One iteration of the aggregation loop:
\<close>

definition add_entry :: "(string \<times> CharData) list \<Rightarrow> LetterEntry \<Rightarrow> (string \<times> CharData) list" where
  "add_entry char_data entry =
     (let d0 = (case map_of char_data (le_char entry) of
                  None \<Rightarrow> \<lparr> total_confidence = 0, cd_count = 0,
                            first_seen = le_timestamp entry, last_seen = le_timestamp entry \<rparr>
                | Some d \<Rightarrow> d);
          d1 = d0\<lparr> total_confidence := total_confidence d0 + le_confidence entry,
                    cd_count := cd_count d0 + 1,
                    last_seen := max (last_seen d0) (le_timestamp entry),
                    first_seen := min (first_seen d0) (le_timestamp entry) \<rparr>
      in AList.update (le_char entry) d1 char_data)"

text \<open>
  Python's \<open>max(iterable, key=f)\<close>: the running best is replaced only by an element whose
  key is strictly greater, so the first maximal element in iteration order is returned.
\<close>

fun max_key_loop :: "('a \<Rightarrow> real) \<Rightarrow> 'a \<Rightarrow> 'a list \<Rightarrow> 'a" where
  "max_key_loop f best [] = best"
| "max_key_loop f best (x # xs) =
     (if f best < f x then max_key_loop f x xs else max_key_loop f best xs)"

definition total_of :: "(string \<times> CharData) list \<Rightarrow> string \<Rightarrow> real" where
  "total_of char_data c = (case map_of char_data c of Some d \<Rightarrow> total_confidence d | None \<Rightarrow> 0)"

definition find_top_candidate :: "real \<Rightarrow> LetterEntry list \<Rightarrow> CommitCandidate option" where
  "find_top_candidate min_conf window =
     (let valid_entries = filter (\<lambda>e. min_conf \<le> le_confidence e) window
      in if valid_entries = [] then None
         else
           (let char_data = foldl add_entry [] valid_entries
            in case map fst char_data of
                 [] \<Rightarrow> None
               | k # ks \<Rightarrow>
                   (let top_char = max_key_loop (total_of char_data) k ks
                    in case map_of char_data top_char of
                         None \<Rightarrow> None
                       | Some data \<Rightarrow>
                           Some \<lparr> cc_char = top_char,
                                  aggregate_confidence = total_confidence data,
                                  cc_first_seen = first_seen data,
                                  cc_last_seen = last_seen data,
                                  cc_count = cd_count data \<rparr>)))"

text \<open>Python's slice \<open>xs[i:]\<close> for an integer \<open>i\<close> of either sign.\<close>

definition slice_from :: "int \<Rightarrow> 'a list \<Rightarrow> 'a list" where
  "slice_from i xs =
     (if i < 0 then drop (nat (int (length xs) + i)) xs else drop (nat i) xs)"

text \<open>
  \<open>process_letter\<close>. \<open>now\<close> is the clock reading of step 2, \<open>tc\<close> the reading used by the
  word-buffer operations of steps 7 and 8. The result is the new store and the returned
  buffer (\<open>None\<close> when nothing was committed).
\<close>

definition process_letter ::
  "Settings \<Rightarrow> real \<Rightarrow> real \<Rightarrow> Redis \<Rightarrow> string \<Rightarrow> string \<Rightarrow> string \<Rightarrow> real \<Rightarrow> real
     \<Rightarrow> Redis \<times> WordBuffer option" where
  "process_letter cfg now tc r sid uid c conf ts =
     (let entry = \<lparr> le_char = c, le_confidence = conf, le_timestamp = ts \<rparr>;
          r1 = push_letter r sid entry;
          cutoff = now - (real_of_int (window_duration_ms cfg) / 1000);
          (r2, removed) = prune_window r1 sid cutoff;
          window = get_window r2 sid
      in if window = [] then (r2, None)
         else case find_top_candidate (min_confidence cfg) window of
           None \<Rightarrow> (r2, None)
         | Some candidate \<Rightarrow>
             (let avg_confidence = aggregate_confidence candidate / real (cc_count candidate)
              in if avg_confidence < commit_min_confidence then (r2, None)
                 else if stability_duration_ms candidate
                           < real_of_int (stability_duration_ms_cfg cfg) then (r2, None)
                 else
                   (let (r3, buffer) = get_word_buffer tc r2 sid uid
                    in if max_consecutive_same cfg \<le> int (length (letters buffer))
                          \<and> list_all (\<lambda>letter. letter = cc_char candidate)
                               (slice_from (- max_consecutive_same cfg) (letters buffer))
                       then (r3, None)
                       else
                         (let (r4, buffer') = append_to_word tc r3 sid uid (cc_char candidate)
                          in (r4, Some buffer')))))"

text \<open>\<open>check_pause\<close>; it reads the buffer through \<open>get_word_buffer\<close>, which may create it.\<close>

definition check_pause :: "Settings \<Rightarrow> real \<Rightarrow> Redis \<Rightarrow> string \<Rightarrow> Redis \<times> bool" where
  "check_pause cfg now r sid =
     (let (r1, buffer) = get_word_buffer now r sid ''temp''
      in if letters buffer = [] then (r1, False)
         else case time_since_last_commit_ms now buffer of
           None \<Rightarrow> (r1, False)
         | Some time_since_last \<Rightarrow>
             if real_of_int (pause_duration_ms cfg) \<le> time_since_last then (r1, True)
             else (r1, False))"

section \<open>The two edit-distance implementations\<close>

text \<open>
  Strings are lists of characters; both functions only compare characters for equality, so
  they are modelled over lists of any type. Python's \<open>enumerate(s)\<close> is
  \<open>List.enumerate 0 s\<close>. Every index read below is within range (shown in the
  correctness proofs); the rows are never empty, so \<open>row[-1]\<close> is \<open>last row\<close>.
\<close>

subsection \<open>word\_resolver.py: \<open>WordResolver._levenshtein_distance\<close>\<close>

text \<open>The inner loop over \<open>enumerate(s1)\<close>, extending \<open>distances_\<close>.\<close>

fun wr_inner :: "'a \<Rightarrow> nat list \<Rightarrow> (nat \<times> 'a) list \<Rightarrow> nat list \<Rightarrow> nat list" where
  "wr_inner c2 distances [] distances' = distances'"
| "wr_inner c2 distances ((i1, c1) # rest) distances' =
     wr_inner c2 distances rest
       (distances' @
          [if c1 = c2 then distances ! i1
           else 1 + min (distances ! i1) (min (distances ! (i1 + 1)) (last distances'))])"

text \<open>The outer loop over \<open>enumerate(s2)\<close>.\<close>

fun wr_outer :: "'a list \<Rightarrow> (nat \<times> 'a) list \<Rightarrow> nat list \<Rightarrow> nat list" where
  "wr_outer s1 [] distances = distances"
| "wr_outer s1 ((i2, c2) # rest) distances =
     wr_outer s1 rest (wr_inner c2 distances (List.enumerate 0 s1) [i2 + 1])"

definition wr_levenshtein_distance :: "'a list \<Rightarrow> 'a list \<Rightarrow> nat" where
  "wr_levenshtein_distance s1 s2 =
     (let (s1, s2) = (if length s1 > length s2 then (s2, s1) else (s1, s2));
          distances = [0 ..< length s1 + 1]
      in last (wr_outer s1 (List.enumerate 0 s2) distances))"

subsection \<open>kb-aliases/lambda\_function.py: \<open>levenshtein_distance\<close>\<close>

text \<open>The inner loop over \<open>enumerate(s2)\<close>, extending \<open>current_row\<close>.\<close>

fun kb_inner :: "'a \<Rightarrow> nat list \<Rightarrow> (nat \<times> 'a) list \<Rightarrow> nat list \<Rightarrow> nat list" where
  "kb_inner c1 previous_row [] current_row = current_row"
| "kb_inner c1 previous_row ((j, c2) # rest) current_row =
     (let insertions = previous_row ! (j + 1) + 1;
          deletions = current_row ! j + 1;
          substitutions = previous_row ! j + (if c1 = c2 then 0 else 1)
      in kb_inner c1 previous_row rest
           (current_row @ [min insertions (min deletions substitutions)]))"

text \<open>The outer loop over \<open>enumerate(s1)\<close>.\<close>

fun kb_outer :: "'a list \<Rightarrow> (nat \<times> 'a) list \<Rightarrow> nat list \<Rightarrow> nat list" where
  "kb_outer s2 [] previous_row = previous_row"
| "kb_outer s2 ((i, c1) # rest) previous_row =
     kb_outer s2 rest (kb_inner c1 previous_row (List.enumerate 0 s2) [i + 1])"

text \<open>The function calls itself once, with the arguments swapped, when \<open>s1\<close> is the shorter.\<close>

function levenshtein_distance :: "'a list \<Rightarrow> 'a list \<Rightarrow> nat" where
  "levenshtein_distance s1 s2 =
     (if length s1 < length s2 then levenshtein_distance s2 s1
      else if length s2 = 0 then length s1
      else last (kb_outer s2 (List.enumerate 0 s1) [0 ..< length s2 + 1]))"
  by pat_completeness auto
termination
  by (relation "measure (\<lambda>(s1, s2). if length s1 < length s2 then 1 else 0)") auto

section \<open>word\_resolver.py: the word resolver\<close>

text \<open>models.py: SearchResult and ResolvedWord.\<close>

record SearchResult =
  surface :: string
  atlas_score :: real
  alias_confidence :: real
  hybrid_score :: real
  matched_via :: "string option"

record ResolvedWord =
  rw_session_id :: string
  rw_user_id :: string
  raw_word :: string
  all_results :: "SearchResult list"
  rw_timestamp :: real
  search_method :: string

text \<open>
  A document returned by the lexicon store. The resolver reads \<open>surface\<close> with
  \<open>result['surface']\<close> (a missing key raises) and the other fields with
  \<open>result.get(key, default)\<close>, so each field may be absent.
\<close>

record Doc =
  d_surface :: "string option"
  d_aliases :: "string list option"
  d_confidence_scores :: "(string \<times> real) list option"
  d_score :: "real option"

text \<open>
  Strings are ASCII: \<open>str.upper\<close> and \<open>str.lower\<close> change the 26 letters only.
\<close>

definition upper_char :: "char \<Rightarrow> char" where
  "upper_char c =
     (if 97 \<le> (of_char c :: nat) \<and> (of_char c :: nat) \<le> 122
      then char_of ((of_char c :: nat) - 32) else c)"

definition lower_char :: "char \<Rightarrow> char" where
  "lower_char c =
     (if 65 \<le> (of_char c :: nat) \<and> (of_char c :: nat) \<le> 90
      then char_of ((of_char c :: nat) + 32) else c)"

definition str_upper :: "string \<Rightarrow> string" where
  "str_upper s = map upper_char s"

definition str_lower :: "string \<Rightarrow> string" where
  "str_lower s = map lower_char s"

text \<open>\<open>s.replace(' ', '').replace('-', '')\<close>.\<close>

definition strip_spaces_hyphens :: "string \<Rightarrow> string" where
  "strip_spaces_hyphens s = filter (\<lambda>c. c \<noteq> CHR ''-'') (filter (\<lambda>c. c \<noteq> CHR '' '') s)"

text \<open>\<open>distance < best_distance\<close>, where \<open>best_distance\<close> starts as \<open>float('inf')\<close> (\<open>None\<close>).\<close>

fun below :: "nat \<Rightarrow> nat option \<Rightarrow> bool" where
  "below d None = True"
| "below d (Some b) = (d < b)"

text \<open>
  The loop of \<open>_find_best_matching_alias\<close>; \<open>query_upper\<close> is already normalised. An exact
  match returns at once.
\<close>

fun best_alias_loop :: "string \<Rightarrow> string list \<Rightarrow> string option \<Rightarrow> nat option \<Rightarrow> string option" where
  "best_alias_loop query_upper [] best_alias best_distance = best_alias"
| "best_alias_loop query_upper (alias # rest) best_alias best_distance =
     (let alias_upper = strip_spaces_hyphens (str_upper alias)
      in if alias_upper = query_upper then Some alias
         else if prefix query_upper alias_upper \<or> sublist query_upper alias_upper then
           (let distance = (if length query_upper \<le> length alias_upper
                            then length alias_upper - length query_upper
                            else length query_upper - length alias_upper)
            in if below distance best_distance
               then best_alias_loop query_upper rest (Some alias) (Some distance)
               else best_alias_loop query_upper rest best_alias best_distance)
         else
           (let distance = wr_levenshtein_distance alias_upper query_upper
            in if distance \<le> 2 \<and> below distance best_distance
               then best_alias_loop query_upper rest (Some alias) (Some distance)
               else best_alias_loop query_upper rest best_alias best_distance))"

definition find_best_matching_alias :: "string \<Rightarrow> string list \<Rightarrow> string option" where
  "find_best_matching_alias query aliases =
     (if aliases = [] then None
      else best_alias_loop (strip_spaces_hyphens (str_upper query)) aliases None None)"

text \<open>
  The lexicon store. \<open>_atlas_fuzzy_search\<close> chooses the autocomplete pipeline for queries of
  at most three characters and the fuzzy text pipeline otherwise, both on the lowercased
  query; the store's answer to the \<open>$search\<close> stage is a parameter (\<open>None\<close>: the call
  raised), and the \<open>$limit\<close> stage keeps its first 20 documents.
\<close>

datatype strategy = Autocomplete | Fuzzy

type_synonym collection = "strategy \<Rightarrow> string \<Rightarrow> Doc list option"

text \<open>Python's \<open>x or y\<close> on an optional string: \<open>None\<close> and the empty string are falsy.\<close>

definition or_else :: "string option \<Rightarrow> string option \<Rightarrow> string option" where
  "or_else x y = (case x of None \<Rightarrow> y | Some s \<Rightarrow> if s = [] then y else Some s)"

text \<open>The annotation loop: each result paired with its \<open>matched_alias\<close> entry.\<close>

definition annotate :: "string \<Rightarrow> Doc \<Rightarrow> Doc \<times> string option" where
  "annotate query result =
     (let matched_alias =
            find_best_matching_alias query (case d_aliases result of None \<Rightarrow> [] | Some a \<Rightarrow> a)
      in (result, or_else matched_alias (d_surface result)))"

definition atlas_fuzzy_search :: "collection \<Rightarrow> string \<Rightarrow> string \<Rightarrow> (Doc \<times> string option) list option" where
  "atlas_fuzzy_search coll query user_id =
     (let use_autocomplete = (length query \<le> 3);
          found = coll (if use_autocomplete then Autocomplete else Fuzzy) (str_lower query)
      in case found of
           None \<Rightarrow> None
         | Some docs \<Rightarrow> Some (map (annotate query) (take 20 docs)))"

text \<open>\<open>_get_alias_confidence\<close>: \<open>confidence_scores.get(matched_alias, 0.0)\<close>.\<close>

definition get_alias_confidence :: "string \<Rightarrow> Doc \<times> string option \<Rightarrow> real" where
  "get_alias_confidence raw result =
     (case snd result of
        None \<Rightarrow> 0
      | Some matched_alias \<Rightarrow>
          (case map_of (case d_confidence_scores (fst result) of None \<Rightarrow> [] | Some cs \<Rightarrow> cs)
                  matched_alias of
             None \<Rightarrow> 0
           | Some conf \<Rightarrow> conf))"

text \<open>
  One iteration of the conversion loop of \<open>resolve_word\<close>; \<open>None\<close> when
  \<open>result['surface']\<close> raises \<open>KeyError\<close>.
\<close>

definition to_search_result :: "string \<Rightarrow> Doc \<times> string option \<Rightarrow> SearchResult option" where
  "to_search_result raw result =
     (let atlas = (case d_score (fst result) of None \<Rightarrow> 0 | Some s \<Rightarrow> s);
          alias_conf = get_alias_confidence raw result;
          hybrid = (atlas * (7 / 10)) + (alias_conf * (3 / 10))
      in case d_surface (fst result) of
           None \<Rightarrow> None
         | Some sf \<Rightarrow>
             Some \<lparr> surface = sf, atlas_score = atlas, alias_confidence = alias_conf,
                    hybrid_score = hybrid, matched_via = snd result \<rparr>)"

fun convert_results :: "string \<Rightarrow> (Doc \<times> string option) list \<Rightarrow> SearchResult list option" where
  "convert_results raw [] = Some []"
| "convert_results raw (result # rest) =
     (case to_search_result raw result of
        None \<Rightarrow> None
      | Some sr \<Rightarrow>
          (case convert_results raw rest of
             None \<Rightarrow> None
           | Some srs \<Rightarrow> Some (sr # srs)))"

text \<open>
  \<open>list.sort(key=f, reverse=True)\<close> is stable: elements with equal keys keep their order.
  \<open>sort_key\<close> is a stable insertion sort into ascending order, here on the negated key.
\<close>

definition sort_reverse :: "('a \<Rightarrow> real) \<Rightarrow> 'a list \<Rightarrow> 'a list" where
  "sort_reverse f xs = sort_key (\<lambda>x. - f x) xs"

definition empty_resolved :: "WordBuffer \<Rightarrow> string \<Rightarrow> real \<Rightarrow> string \<Rightarrow> ResolvedWord" where
  "empty_resolved buffer w now method =
     \<lparr> rw_session_id = wb_session_id buffer, rw_user_id = wb_user_id buffer, raw_word = w,
       all_results = [], rw_timestamp = now, search_method = method \<rparr>"

text \<open>
  \<open>resolve_word\<close>. \<open>coll\<close> is \<open>self.collection\<close> (\<open>None\<close> when MongoDB is not configured);
  every exception inside the \<open>try\<close> block leads to the result with no candidates.
\<close>

definition resolve_word :: "collection option \<Rightarrow> real \<Rightarrow> WordBuffer \<Rightarrow> string \<Rightarrow> ResolvedWord" where
  "resolve_word coll now buffer method =
     (let raw = current_word buffer
      in if raw = [] then empty_resolved buffer [] now method
         else case coll of
           None \<Rightarrow> empty_resolved buffer raw now method
         | Some c \<Rightarrow>
             (case atlas_fuzzy_search c raw (wb_user_id buffer) of
                None \<Rightarrow> empty_resolved buffer raw now method
              | Some results \<Rightarrow>
                  if results \<noteq> [] then
                    (case convert_results raw results of
                       None \<Rightarrow> empty_resolved buffer raw now method
                     | Some all_search_results \<Rightarrow>
                         \<lparr> rw_session_id = wb_session_id buffer,
                           rw_user_id = wb_user_id buffer,
                           raw_word = raw,
                           all_results = sort_reverse hybrid_score all_search_results,
                           rw_timestamp = now,
                           search_method = method \<rparr>)
                  else empty_resolved buffer raw now method))"

section \<open>kinesis\_consumer.py: the letters-stream consumer\<close>

text \<open>models.py: the fields of LetterPrediction that the consumer reads.\<close>

record LetterPrediction =
  lp_session_id :: string
  lp_event_type :: string
  lp_prediction :: "string option"
  lp_confidence :: "real option"

text \<open>
  What one call of the consumer meets outside the store: three clock readings (pruning,
  commit, pause check), the lexicon collection, whether the invocation of the outbound
  worker succeeds, and whether the store answers the three calls that \<open>_finalize_word\<close>
  makes itself (the client has a socket timeout of five seconds; a call that fails raises).
\<close>

record Env =
  now_prune :: real
  now_commit :: real
  now_pause :: real
  env_collection :: "collection option"
  invoke_ok :: bool
  get_buffer_ok :: bool
  clear_word_ok :: bool
  clear_window_ok :: bool

text \<open>The consumer's state: the session store and the payloads handed to the outbound worker.\<close>

record Consumer =
  redis :: Redis
  outbox :: "(string \<times> ResolvedWord) list"

text \<open>
  \<open>_finalize_word\<close>: read the word buffer, resolve the buffered word, hand it to the
  outbound worker (a failed invocation is logged and ignored), then delete the word buffer
  and, in a second call, the window. The whole body sits in \<open>try: ... except Exception\<close>,
  which only logs: a store call that raises ends the function there, with what was done
  before it left in place. So a failed read changes nothing, a failed \<open>clear_word_buffer\<close>
  leaves buffer and window stored after the hand-off, and a failed \<open>clear_window\<close> leaves
  the window stored.
\<close>

definition finalize_word :: "Env \<Rightarrow> Consumer \<Rightarrow> string \<Rightarrow> string \<Rightarrow> Consumer" where
  "finalize_word env c sid method =
     (if \<not> get_buffer_ok env then c
      else
        (let (r1, buffer) = get_word_buffer (now_pause env) (redis c) sid sid
         in if letters buffer = [] then c\<lparr> redis := r1 \<rparr>
            else
              (let resolved = resolve_word (env_collection env) (now_pause env) buffer method;
                   sent = (if invoke_ok env then outbox c @ [(sid, resolved)] else outbox c)
               in if \<not> clear_word_ok env then \<lparr> redis = r1, outbox = sent \<rparr>
                  else
                    (let r2 = clear_word_buffer r1 sid
                     in if \<not> clear_window_ok env then \<lparr> redis = r2, outbox = sent \<rparr>
                        else
                          (let r3 = clear_window r2 sid
                           in \<lparr> redis = r3, outbox = sent \<rparr>)))))"

text \<open>
  The statement \<open>if self.commit_engine.check_pause(session_id): self._finalize_word(...)\<close>,
  which occurs in \<open>process_record\<close> (twice) and in \<open>_check_all_sessions_for_pause\<close>.
\<close>

definition check_and_finalize :: "Settings \<Rightarrow> Env \<Rightarrow> Consumer \<Rightarrow> string \<Rightarrow> string \<Rightarrow> Consumer" where
  "check_and_finalize cfg env c sid method =
     (let (r1, pause) = check_pause cfg (now_pause env) (redis c) sid
      in if pause then finalize_word env (c\<lparr> redis := r1 \<rparr>) sid method
         else c\<lparr> redis := r1 \<rparr>)"

text \<open>
  \<open>process_record\<close>. The record's payload is given parsed (\<open>None\<close>: parsing or validation
  raised, which the handler logs and ignores); \<open>arrival\<close> is the record's
  \<open>ApproximateArrivalTimestamp\<close> in seconds (\<open>None\<close>: absent, read as 0).
\<close>

definition process_record ::
  "Settings \<Rightarrow> Env \<Rightarrow> Consumer \<Rightarrow> LetterPrediction option \<Rightarrow> real option \<Rightarrow> Consumer" where
  "process_record cfg env c data arrival =
     (case data of
        None \<Rightarrow> c
      | Some prediction \<Rightarrow>
          (let session_id = lp_session_id prediction
           in if lp_event_type prediction = ''skip''
              then check_and_finalize cfg env c session_id ''skip_event''
              else if lp_event_type prediction = ''prediction''
                      \<and> lp_prediction prediction \<noteq> None \<and> lp_prediction prediction \<noteq> Some []
              then
                (let char = (case lp_prediction prediction of Some p \<Rightarrow> p | None \<Rightarrow> []);
                     confidence = (case lp_confidence prediction of Some x \<Rightarrow> x | None \<Rightarrow> 0);
                     timestamp = (case arrival of Some t \<Rightarrow> t | None \<Rightarrow> 0);
                     (r1, buffer) = process_letter cfg (now_prune env) (now_commit env) (redis c)
                                      session_id session_id char confidence timestamp
                 in check_and_finalize cfg env (c\<lparr> redis := r1 \<rparr>) session_id ''fuzzy'')
              else c))"

text \<open>
  What can happen to the consumer's state: a stream record is processed, the periodic sweep
  visits the key of one session, or the store expires a key (TTL).
\<close>

datatype event =
    Record "LetterPrediction option" "real option"
  | Sweep string
  | Expire_window string
  | Expire_word string

fun step :: "Settings \<Rightarrow> Consumer \<Rightarrow> Env \<times> event \<Rightarrow> Consumer" where
  "step cfg c (env, Record data arrival) = process_record cfg env c data arrival"
| "step cfg c (env, Sweep sid) = check_and_finalize cfg env c sid ''fuzzy''"
| "step cfg c (env, Expire_window sid) = c\<lparr> redis := clear_window (redis c) sid \<rparr>"
| "step cfg c (env, Expire_word sid) = c\<lparr> redis := clear_word_buffer (redis c) sid \<rparr>"

definition run :: "Settings \<Rightarrow> Consumer \<Rightarrow> (Env \<times> event) list \<Rightarrow> Consumer" where
  "run cfg c evs = foldl (step cfg) c evs"

definition initial_consumer :: Consumer where
  "initial_consumer = \<lparr> redis = empty_redis, outbox = [] \<rparr>"

section \<open>ingress\_handler.py: the ingress handler\<close>

text \<open>
  Values produced by \<open>json.loads\<close>. Python's decoder also accepts \<open>NaN\<close>, \<open>Infinity\<close> and
  \<open>-Infinity\<close>, which become non-finite floats.
\<close>

datatype jnum = Finite real | NaN | PosInf | NegInf











section \<open>letter-model-service: hand extraction and the classifier bridge\<close>

datatype py_error = RuntimeError | ValueError | IndexError

text \<open>Python's slice \<open>xs[a:b]\<close> for \<open>0 \<le> a \<le> b\<close>.\<close>

definition slice :: "nat \<Rightarrow> nat \<Rightarrow> 'a list \<Rightarrow> 'a list" where
  "slice a b xs = take (b - a) (drop a xs)"

text \<open>The offsets of the hand blocks in the flattened holistic array (asl\_service.py).\<close>

definition LEFT_HAND_START :: nat where "LEFT_HAND_START = 33 * 4 + 468 * 3"
definition LEFT_HAND_END :: nat where "LEFT_HAND_END = LEFT_HAND_START + 21 * 3"
definition RIGHT_HAND_START :: nat where "RIGHT_HAND_START = LEFT_HAND_END"
definition RIGHT_HAND_END :: nat where "RIGHT_HAND_END = RIGHT_HAND_START + 21 * 3"

text \<open>
  The reshaping loop \<open>for i in range(0, len(hand_data), 3)\<close>, which reads \<open>hand_data[i]\<close>
  and \<open>hand_data[i+1]\<close> and ignores the z coordinate; reading \<open>hand_data[i+1]\<close> past the
  end raises \<open>IndexError\<close>.
\<close>

fun xy_points :: "real list \<Rightarrow> py_error + (real \<times> real) list" where
  "xy_points [] = Inr []"
| "xy_points [x] = Inl IndexError"
| "xy_points [x, y] = Inr [(x, y)]"
| "xy_points (x # y # z # rest) =
     (case xy_points rest of Inl e \<Rightarrow> Inl e | Inr pts \<Rightarrow> Inr ((x, y) # pts))"

record HandExtraction =
  hand_landmarks :: "(real \<times> real) list option"
  handedness :: "string option"
  multi_hand :: bool
  skip_inference :: bool

definition hand_active :: "real list \<Rightarrow> bool" where
  "hand_active hand_data = list_ex (\<lambda>val. \<bar>val\<bar> > 1 / 100) hand_data"

definition extract_hand_from_holistic :: "real list \<Rightarrow> py_error + HandExtraction" where
  "extract_hand_from_holistic holistic_landmarks =
     (let left_hand_data = slice LEFT_HAND_START LEFT_HAND_END holistic_landmarks;
          right_hand_data = slice RIGHT_HAND_START RIGHT_HAND_END holistic_landmarks;
          left_hand_active = hand_active left_hand_data;
          right_hand_active = hand_active right_hand_data
      in if left_hand_active \<and> right_hand_active
         then Inr \<lparr> hand_landmarks = None, handedness = None, multi_hand = True,
                    skip_inference = True \<rparr>
         else if right_hand_active
         then (case xy_points right_hand_data of
                 Inl e \<Rightarrow> Inl e
               | Inr pts \<Rightarrow> Inr \<lparr> hand_landmarks = Some pts, handedness = Some ''right'',
                                   multi_hand = False, skip_inference = False \<rparr>)
         else if left_hand_active
         then (case xy_points left_hand_data of
                 Inl e \<Rightarrow> Inl e
               | Inr pts \<Rightarrow> Inr \<lparr> hand_landmarks = Some pts, handedness = Some ''left'',
                                   multi_hand = False, skip_inference = False \<rparr>)
         else Inr \<lparr> hand_landmarks = None, handedness = None, multi_hand = False,
                    skip_inference = True \<rparr>)"

text \<open>
  The loop of \<open>pre_process_landmark\<close> that makes the coordinates relative: the base point
  is taken from the entry with index 0, and every entry (that one included) has the
  current base subtracted.
\<close>

fun relative_loop :: "real \<times> real \<Rightarrow> (nat \<times> (real \<times> real)) list \<Rightarrow> (real \<times> real) list" where
  "relative_loop base [] = []"
| "relative_loop base ((index, landmark_point) # rest) =
     (let base' = (if index = 0 then landmark_point else base)
      in (fst landmark_point - fst base', snd landmark_point - snd base')
           # relative_loop base' rest)"

text \<open>\<open>itertools.chain.from_iterable\<close> on the list of \<open>[x, y]\<close> points.\<close>

definition flatten_points :: "(real \<times> real) list \<Rightarrow> real list" where
  "flatten_points pts = concat (map (\<lambda>p. [fst p, snd p]) pts)"

text \<open>Python's \<open>max\<close> of a list; it raises \<open>ValueError\<close> on the empty list.\<close>

fun py_max :: "real list \<Rightarrow> py_error + real" where
  "py_max [] = Inl ValueError"
| "py_max (x # xs) = Inr (fold max xs x)"

definition normalize_value :: "real \<Rightarrow> real \<Rightarrow> real" where
  "normalize_value max_value n = (if max_value \<noteq> 0 then n / max_value else 0)"

definition pre_process_landmark :: "(real \<times> real) list \<Rightarrow> py_error + real list" where
  "pre_process_landmark landmark_list =
     (let temp_landmark_list = flatten_points (relative_loop (0, 0) (List.enumerate 0 landmark_list))
      in case py_max (map abs temp_landmark_list) of
           Inl e \<Rightarrow> Inl e
         | Inr max_value \<Rightarrow> Inr (map (normalize_value max_value) temp_landmark_list))"

subsection \<open>keypoint\_classifier.py\<close>

text \<open>
  The TensorFlow Lite interpreter that \<open>KeyPointClassifier\<close> holds. \<open>network\<close> is the
  trained model, from one input row to one output row, and \<open>input_width\<close> the length of
  the row it accepts (\<open>input_details[0]['shape']\<close>); \<open>set_tensor\<close> raises \<open>ValueError\<close>
  for a row of another length. \<open>invoke\<close> runs the network on the input tensor;
  \<open>invocations\<close> lists the input of every \<open>invoke\<close>, oldest first. The cast to
  \<open>float32\<close> is not modelled: numbers are exact reals.
\<close>

record Interpreter =
  network :: "real list \<Rightarrow> real list"
  input_width :: nat
  input_tensor :: "real list"
  output_tensor :: "real list"
  invocations :: "real list list"

definition set_tensor :: "Interpreter \<Rightarrow> real list \<Rightarrow> py_error + Interpreter" where
  "set_tensor it row =
     (if length row = input_width it then Inr (it\<lparr> input_tensor := row \<rparr>) else Inl ValueError)"

definition invoke :: "Interpreter \<Rightarrow> Interpreter" where
  "invoke it = it\<lparr> output_tensor := network it (input_tensor it),
                    invocations := invocations it @ [input_tensor it] \<rparr>"

definition get_tensor :: "Interpreter \<Rightarrow> real list" where
  "get_tensor it = output_tensor it"

text \<open>\<open>np.argmax\<close>: the index of the first greatest element; it raises on the empty list.\<close>

fun argmax_loop :: "real list \<Rightarrow> nat \<Rightarrow> nat \<Rightarrow> real \<Rightarrow> nat" where
  "argmax_loop [] i best_i best = best_i"
| "argmax_loop (x # xs) i best_i best =
     (if best < x then argmax_loop xs (i + 1) i x else argmax_loop xs (i + 1) best_i best)"

definition argmax :: "real list \<Rightarrow> py_error + nat" where
  "argmax probabilities =
     (case probabilities of [] \<Rightarrow> Inl ValueError | p # ps \<Rightarrow> Inr (argmax_loop ps 1 0 p))"

text \<open>
  \<open>KeyPointClassifier.__call__\<close>: the input tensor is \<open>landmark_list[2:]\<close>. The output has
  shape \<open>(1, n)\<close> and \<open>np.squeeze\<close> drops every axis of length 1: for \<open>n = 1\<close> it yields a
  0-dimensional array, whose \<open>argmax\<close> is 0 and whose indexing raises \<open>IndexError\<close>.
\<close>

definition keypoint_classifier_call ::
  "Interpreter \<Rightarrow> real list \<Rightarrow> Interpreter \<times> (py_error + nat \<times> real)" where
  "keypoint_classifier_call it landmark_list =
     (let landmark_input = drop 2 landmark_list
      in case set_tensor it landmark_input of
           Inl e \<Rightarrow> (it, Inl e)
         | Inr it1 \<Rightarrow>
             (let it2 = invoke it1;
                  probabilities = get_tensor it2
              in case argmax probabilities of
                   Inl e \<Rightarrow> (it2, Inl e)
                 | Inr result_index \<Rightarrow>
                     if length probabilities = 1 then (it2, Inl IndexError)
                     else (it2, Inr (result_index, probabilities ! result_index))))"

subsection \<open>\<open>predict_from_landmarks\<close>\<close>

text \<open>The service; \<open>keypoint_classifier\<close> is the classifier object, that is, its interpreter.\<close>

record LetterService =
  model_initialized :: bool
  keypoint_classifier_labels :: "string list"
  keypoint_classifier :: Interpreter

datatype prediction =
    Skipped string bool
  | Predicted string real "string option"

text \<open>
  \<open>RuntimeError\<close> and \<open>ValueError\<close> are re-raised as they are; any other exception becomes a
  \<open>RuntimeError\<close>.
\<close>

definition reraise :: "py_error \<Rightarrow> py_error" where
  "reraise e = (if e = RuntimeError \<or> e = ValueError then e else RuntimeError)"

text \<open>
  \<open>predict_from_landmarks\<close> returns the service, whose interpreter the call may have used,
  and the response or the exception raised.
\<close>

definition predict_from_landmarks ::
  "LetterService \<Rightarrow> real list \<Rightarrow> LetterService \<times> (py_error + prediction)" where
  "predict_from_landmarks svc landmarks_list =
     (if \<not> model_initialized svc then (svc, Inl RuntimeError)
      else case extract_hand_from_holistic landmarks_list of
        Inl e \<Rightarrow> (svc, Inl (reraise e))
      | Inr hand_extraction \<Rightarrow>
          if skip_inference hand_extraction
          then (svc, Inr (Skipped (if multi_hand hand_extraction then ''multi_hand'' else ''no_hands'')
                                  (multi_hand hand_extraction)))
          else
            (case hand_landmarks hand_extraction of
               None \<Rightarrow> (svc, Inl RuntimeError)
             | Some pts \<Rightarrow>
                 (case pre_process_landmark pts of
                    Inl e \<Rightarrow> (svc, Inl (reraise e))
                  | Inr pre_processed_landmarks \<Rightarrow>
                      if length pre_processed_landmarks \<noteq> 42 then (svc, Inl ValueError)
                      else
                        (let (it, r) = keypoint_classifier_call (keypoint_classifier svc)
                                         pre_processed_landmarks;
                             svc' = svc\<lparr> keypoint_classifier := it \<rparr>
                         in case r of
                              Inl e \<Rightarrow> (svc', Inl (reraise e))
                            | Inr (hand_sign_id, confidence) \<Rightarrow>
                                if hand_sign_id < length (keypoint_classifier_labels svc)
                                then
                                  (let label = keypoint_classifier_labels svc ! hand_sign_id;
                                       label' = (if prefix ''ASL '' label then drop 4 label else label)
                                   in (svc', Inr (Predicted label' confidence
                                                    (handedness hand_extraction))))
                                else (svc', Inr (Predicted ''Unknown'' 0
                                                   (handedness hand_extraction)))))))"

section \<open>kb-aliases/lambda\_function.py: alias validation\<close>

text \<open>
  The ASL confusion matrix of the source: 37 rows of 37 counts, indexed by the digits
  \<open>0..9\<close>, the letters \<open>A..Z\<close> (10 to 35) and \<open>_\<close> (36).
\<close>

definition CONFUSION_MATRIX :: "nat list list" where
  "CONFUSION_MATRIX =
     [[434, 12, 1, 0, 1, 1, 0, 2, 0, 0, 2, 0, 9, 2, 2, 0, 0, 0, 0, 2, 0, 0, 0, 3, 8, 1, 0, 0, 0, 4, 0, 0, 0, 1, 1, 0, 20],
      [2, 681, 19, 0, 0, 0, 3, 2, 0, 0, 18, 2, 0, 48, 1, 0, 1, 0, 2, 0, 3, 0, 0, 7, 2, 1, 0, 1, 3, 10, 0, 0, 1, 7, 1, 0, 3],
      [5, 129, 542, 11, 0, 3, 11, 3, 2, 1, 6, 2, 1, 9, 2, 0, 1, 0, 1, 0, 25, 3, 0, 4, 2, 0, 0, 0, 7, 10, 8, 40, 0, 0, 1, 0, 1],
      [5, 20, 8, 1100, 3, 12, 0, 2, 2, 3, 3, 0, 1, 8, 0, 0, 0, 0, 0, 0, 7, 9, 0, 0, 0, 0, 1, 0, 0, 2, 0, 2, 0, 0, 0, 0, 5],
      [4, 1, 1, 2, 1272, 23, 0, 1, 0, 1, 0, 10, 0, 1, 1, 1, 0, 0, 0, 0, 0, 0, 0, 2, 0, 0, 0, 0, 0, 0, 0, 0, 1, 0, 0, 0, 3],
      [1, 1, 0, 2, 19, 1862, 0, 1, 4, 2, 1, 1, 0, 1, 0, 0, 0, 0, 0, 1, 2, 0, 0, 0, 0, 0, 1, 0, 0, 0, 0, 1, 1, 0, 0, 0, 0],
      [7, 13, 24, 2, 7, 10, 680, 9, 8, 0, 7, 0, 5, 1, 1, 0, 0, 0, 0, 0, 1, 0, 0, 0, 0, 0, 0, 0, 0, 2, 3, 5, 44, 3, 1, 1, 2],
      [9, 10, 5, 2, 40, 7, 7, 1018, 9, 3, 12, 0, 7, 0, 0, 0, 0, 0, 8, 0, 1, 0, 0, 1, 3, 0, 0, 0, 0, 3, 0, 4, 0, 0, 0, 0, 6],
      [4, 3, 1, 2, 26, 13, 4, 25, 1049, 21, 2, 1, 0, 0, 1, 0, 0, 0, 2, 0, 0, 0, 0, 1, 6, 0, 0, 0, 0, 4, 0, 0, 0, 0, 1, 1, 1],
      [5, 3, 1, 2, 3, 12, 1, 1, 1, 1138, 0, 1, 1, 0, 0, 22, 0, 0, 0, 0, 7, 0, 0, 0, 1, 0, 0, 0, 0, 1, 0, 0, 0, 0, 0, 0, 0],
      [3, 19, 2, 3, 1, 2, 0, 5, 0, 2, 954, 7, 3, 3, 0, 0, 0, 0, 1, 0, 8, 0, 0, 0, 0, 0, 0, 0, 0, 5, 0, 0, 0, 2, 0, 0, 0],
      [0, 0, 0, 0, 0, 0, 0, 0, 0, 0, 0, 1772, 0, 0, 0, 0, 0, 0, 0, 0, 0, 0, 0, 0, 0, 0, 0, 0, 0, 0, 0, 0, 0, 0, 0, 0, 0],
      [10, 0, 0, 0, 0, 0, 0, 0, 0, 0, 0, 0, 1685, 0, 0, 0, 0, 0, 0, 0, 0, 0, 0, 0, 0, 0, 0, 0, 0, 0, 0, 0, 0, 0, 0, 2, 16],
      [0, 21, 1, 0, 0, 0, 0, 0, 0, 0, 0, 0, 0, 1746, 0, 0, 0, 0, 0, 0, 0, 0, 0, 2, 0, 0, 0, 0, 0, 1, 0, 1, 0, 0, 0, 0, 0],
      [1, 1, 0, 0, 0, 0, 0, 0, 0, 0, 2, 0, 0, 0, 63, 0, 0, 0, 0, 0, 0, 0, 0, 1, 2, 0, 1, 0, 0, 5, 0, 0, 0, 0, 0, 0, 0],
      [0, 0, 0, 0, 0, 0, 0, 0, 0, 31, 0, 10, 0, 0, 0, 1740, 0, 0, 0, 0, 0, 0, 0, 0, 0, 0, 0, 0, 0, 0, 0, 0, 0, 0, 0, 0, 0],
      [1, 1, 0, 0, 0, 0, 0, 0, 0, 0, 0, 0, 0, 0, 0, 0, 1762, 3, 0, 0, 0, 0, 0, 0, 0, 1, 0, 0, 0, 0, 0, 0, 0, 0, 0, 2, 0],
      [0, 0, 0, 0, 0, 0, 0, 0, 0, 0, 0, 0, 0, 1, 0, 0, 0, 1770, 0, 0, 0, 0, 0, 0, 0, 0, 0, 0, 0, 0, 0, 0, 0, 0, 1, 1, 3],
      [0, 0, 0, 0, 0, 0, 0, 0, 0, 0, 0, 0, 0, 1, 0, 0, 0, 0, 1700, 4, 0, 0, 0, 0, 0, 0, 0, 0, 0, 0, 0, 0, 0, 0, 0, 0, 0],
      [4, 2, 0, 0, 1, 0, 0, 2, 0, 0, 1, 0, 0, 0, 0, 0, 2, 0, 4, 1360, 0, 0, 0, 1, 0, 1, 0, 0, 0, 3, 0, 0, 0, 1, 0, 2, 4],
      [0, 1, 2, 0, 0, 3, 0, 1, 0, 0, 1, 0, 0, 0, 0, 0, 0, 0, 0, 0, 1670, 0, 0, 1, 0, 0, 0, 0, 0, 0, 0, 0, 0, 0, 0, 0, 0],
      [0, 0, 0, 0, 0, 0, 0, 0, 0, 0, 0, 0, 0, 0, 0, 0, 0, 0, 0, 0, 0, 1547, 0, 0, 0, 0, 0, 0, 0, 0, 0, 0, 0, 0, 0, 0, 0],
      [6, 0, 0, 0, 0, 0, 0, 0, 0, 0, 0, 0, 1, 1, 3, 0, 0, 0, 0, 0, 0, 0, 16, 3, 0, 0, 0, 0, 0, 1, 0, 0, 0, 0, 0, 1, 2],
      [2, 2, 0, 0, 0, 0, 0, 0, 0, 0, 1, 0, 0, 0, 2, 0, 0, 0, 0, 0, 1, 0, 5, 1509, 0, 0, 0, 0, 2, 1, 0, 0, 0, 0, 0, 0, 0],
      [79, 2, 0, 0, 0, 0, 0, 0, 2, 0, 1, 0, 0, 3, 0, 0, 0, 0, 0, 0, 0, 0, 0, 0, 36, 0, 0, 0, 1, 1, 0, 0, 0, 0, 0, 0, 0],
      [0, 0, 1, 0, 0, 0, 0, 0, 0, 0, 0, 0, 0, 0, 0, 0, 0, 0, 0, 0, 0, 0, 0, 0, 0, 1760, 0, 0, 0, 1, 0, 0, 0, 0, 0, 1, 0],
      [1, 0, 0, 0, 0, 0, 0, 0, 0, 0, 0, 0, 0, 0, 0, 0, 0, 0, 0, 0, 0, 0, 0, 0, 0, 0, 1761, 0, 1, 4, 0, 0, 0, 0, 0, 0, 0],
      [0, 2, 1, 0, 0, 0, 0, 0, 0, 0, 0, 0, 0, 4, 0, 0, 0, 0, 0, 0, 4, 0, 0, 0, 0, 0, 0, 852, 0, 0, 12, 5, 0, 0, 0, 0, 0],
      [9, 12, 0, 0, 0, 0, 0, 1, 0, 0, 4, 0, 6, 2, 3, 0, 0, 0, 0, 0, 0, 0, 0, 12, 10, 0, 3, 0, 19, 6, 0, 0, 0, 0, 0, 0, 1],
      [4, 11, 0, 0, 0, 3, 0, 1, 1, 1, 10, 0, 0, 2, 1, 0, 0, 0, 0, 0, 1, 0, 0, 3, 3, 0, 1, 0, 0, 394, 0, 0, 0, 1, 1, 0, 0],
      [0, 0, 0, 0, 0, 0, 0, 0, 0, 0, 0, 0, 0, 0, 0, 0, 0, 0, 0, 0, 0, 0, 0, 0, 0, 0, 0, 0, 0, 0, 1553, 0, 0, 0, 0, 0, 0],
      [0, 0, 14, 0, 0, 0, 0, 2, 0, 0, 0, 0, 0, 12, 0, 0, 0, 0, 0, 0, 2, 0, 0, 0, 0, 0, 0, 2, 0, 0, 6, 852, 1, 0, 0, 0, 0],
      [0, 0, 0, 0, 0, 0, 8, 0, 0, 9, 0, 0, 0, 0, 0, 0, 0, 0, 0, 0, 0, 0, 0, 0, 0, 0, 0, 0, 0, 0, 0, 0, 1738, 0, 0, 0, 0],
      [1, 0, 0, 0, 0, 0, 0, 0, 0, 0, 0, 0, 1, 0, 0, 0, 0, 0, 0, 0, 0, 0, 0, 1, 0, 0, 0, 1, 0, 0, 0, 0, 0, 1765, 0, 0, 1],
      [3, 6, 3, 0, 0, 3, 0, 2, 3, 2, 15, 0, 0, 0, 3, 0, 0, 0, 0, 0, 3, 0, 0, 0, 1, 0, 0, 0, 0, 4, 0, 0, 0, 1, 97, 0, 5],
      [2, 2, 0, 0, 0, 0, 0, 0, 0, 0, 0, 0, 0, 0, 0, 0, 1, 1, 0, 0, 0, 0, 0, 0, 0, 1, 1, 0, 0, 0, 0, 0, 0, 0, 1, 1499, 16],
      [1, 1, 0, 0, 0, 0, 0, 0, 0, 0, 0, 0, 0, 0, 0, 0, 0, 0, 0, 0, 0, 0, 0, 0, 0, 0, 0, 0, 0, 0, 0, 0, 0, 0, 0, 1, 881]]"

text \<open>
  Character classes, for ASCII strings: \<open>str.isdigit\<close>, \<open>str.isalpha\<close> and the whitespace
  that \<open>str.strip\<close> removes and the pattern \<open>\s\<close> matches (tab, line feed, vertical tab,
  form feed, carriage return, the separators 28 to 31, and the space).
\<close>

definition is_digit :: "char \<Rightarrow> bool" where
  "is_digit c = (48 \<le> (of_char c :: nat) \<and> (of_char c :: nat) \<le> 57)"

definition is_upper :: "char \<Rightarrow> bool" where
  "is_upper c = (65 \<le> (of_char c :: nat) \<and> (of_char c :: nat) \<le> 90)"

definition is_alpha :: "char \<Rightarrow> bool" where
  "is_alpha c = (is_upper c \<or> (97 \<le> (of_char c :: nat) \<and> (of_char c :: nat) \<le> 122))"

definition is_space :: "char \<Rightarrow> bool" where
  "is_space c = ((9 \<le> (of_char c :: nat) \<and> (of_char c :: nat) \<le> 13)
                 \<or> (28 \<le> (of_char c :: nat) \<and> (of_char c :: nat) \<le> 32))"

definition char_to_idx :: "char \<Rightarrow> int" where
  "char_to_idx c =
     (if is_digit c then int (of_char c) - 48
      else if is_alpha c then int (of_char (upper_char c)) - 65 + 10
      else if c = CHR ''_'' then 36
      else - 1)"

definition KNOWN_CONFUSION_PAIRS :: "(char \<times> char) list" where
  "KNOWN_CONFUSION_PAIRS =
     [(CHR ''W'', CHR ''6''), (CHR ''6'', CHR ''W''), (CHR ''W'', CHR ''3''), (CHR ''3'', CHR ''W''),
      (CHR ''V'', CHR ''2''), (CHR ''2'', CHR ''V''), (CHR ''F'', CHR ''9''), (CHR ''9'', CHR ''F''),
      (CHR ''D'', CHR ''1''), (CHR ''1'', CHR ''D''), (CHR ''O'', CHR ''0''), (CHR ''0'', CHR ''O''),
      (CHR ''A'', CHR ''T''), (CHR ''T'', CHR ''A''), (CHR ''A'', CHR ''E''), (CHR ''E'', CHR ''A''),
      (CHR ''E'', CHR ''S''), (CHR ''S'', CHR ''E''), (CHR ''E'', CHR ''T''), (CHR ''T'', CHR ''E''),
      (CHR ''E'', CHR ''N''), (CHR ''N'', CHR ''E''), (CHR ''E'', CHR ''M''), (CHR ''M'', CHR ''E''),
      (CHR ''T'', CHR ''M''), (CHR ''M'', CHR ''T''), (CHR ''S'', CHR ''N''), (CHR ''N'', CHR ''S''),
      (CHR ''S'', CHR ''T''), (CHR ''T'', CHR ''S''), (CHR ''N'', CHR ''M''), (CHR ''M'', CHR ''N''),
      (CHR ''H'', CHR ''U''), (CHR ''U'', CHR ''H''), (CHR ''H'', CHR ''V''), (CHR ''V'', CHR ''H''),
      (CHR ''H'', CHR ''7''), (CHR ''7'', CHR ''H''), (CHR ''R'', CHR ''U''), (CHR ''U'', CHR ''R''),
      (CHR ''R'', CHR ''V''), (CHR ''V'', CHR ''R''), (CHR ''U'', CHR ''V''), (CHR ''V'', CHR ''U''),
      (CHR ''U'', CHR ''7''), (CHR ''7'', CHR ''U''), (CHR ''V'', CHR ''7''), (CHR ''7'', CHR ''V''),
      (CHR ''C'', CHR ''O''), (CHR ''O'', CHR ''C''), (CHR ''C'', CHR ''0''), (CHR ''0'', CHR ''C''),
      (CHR ''J'', CHR ''Z''), (CHR ''Z'', CHR ''J''), (CHR ''J'', CHR ''I''), (CHR ''I'', CHR ''J''),
      (CHR ''Z'', CHR ''1''), (CHR ''1'', CHR ''Z'')]"

definition is_known_confusion :: "char \<Rightarrow> char \<Rightarrow> bool" where
  "is_known_confusion char1 char2 = ((upper_char char1, upper_char char2) \<in> set KNOWN_CONFUSION_PAIRS)"

definition get_confusion_prob :: "char \<Rightarrow> char \<Rightarrow> real" where
  "get_confusion_prob char1 char2 =
     (let idx1 = char_to_idx char1; idx2 = char_to_idx char2
      in if idx1 = - 1 \<or> idx2 = - 1 then 0
         else
           (let count = CONFUSION_MATRIX ! nat idx1 ! nat idx2;
                total = sum_list (CONFUSION_MATRIX ! nat idx1)
            in if total > 0 then real count / real total else 0))"

text \<open>
  The loop \<open>for i in range(min_len)\<close> of \<open>confusion_weighted_edit_distance\<close>, over the
  aligned pairs \<open>(surface_clean[i], alias_clean[i])\<close>, accumulating \<open>score\<close>.
\<close>

fun score_loop :: "(char \<times> char) list \<Rightarrow> real \<Rightarrow> real" where
  "score_loop [] score = score"
| "score_loop ((s, a) # rest) score =
     (if s = a then score_loop rest (score + 1)
      else
        (let conf_prob = get_confusion_prob s a;
             conf_prob' = (if conf_prob < 3 / 10 \<and> is_known_confusion s a
                           then max conf_prob (4 / 10) else conf_prob)
         in score_loop rest (score + conf_prob')))"

definition confusion_weighted_edit_distance :: "string \<Rightarrow> string \<Rightarrow> real" where
  "confusion_weighted_edit_distance surface_str alias =
     (let surface_clean = strip_spaces_hyphens surface_str;
          alias_clean = strip_spaces_hyphens alias;
          edit_dist = levenshtein_distance surface_clean alias_clean
      in if edit_dist > 2 then 0
         else
           (let min_len = min (length surface_clean) (length alias_clean);
                score = score_loop (zip (take min_len surface_clean) (take min_len alias_clean)) 0;
                max_score = length surface_clean
            in if max_score > 0 then score / real max_score else 0))"

text \<open>\<open>str.strip()\<close>: leading and trailing whitespace removed.\<close>

definition strip_ws :: "string \<Rightarrow> string" where
  "strip_ws s = rev (dropWhile is_space (rev (dropWhile is_space s)))"

text \<open>
  \<open>re.match(r'^[A-Z0-9\-\s]{2,40}$', alias)\<close>. In Python \<open>$\<close> also matches just before a
  final line feed, which the second alternative covers.
\<close>

definition alias_char :: "char \<Rightarrow> bool" where
  "alias_char c = (is_upper c \<or> is_digit c \<or> c = CHR ''-'' \<or> is_space c)"

definition alias_pattern :: "string \<Rightarrow> bool" where
  "alias_pattern s = (2 \<le> length s \<and> length s \<le> 40 \<and> list_all alias_char s)"

definition regex_match :: "string \<Rightarrow> bool" where
  "regex_match s =
     (alias_pattern s \<or> (s \<noteq> [] \<and> last s = CHR 0x0A \<and> alias_pattern (butlast s)))"

definition validate_alias :: "string \<Rightarrow> string \<Rightarrow> bool \<times> real" where
  "validate_alias surface_str alias_str =
     (let alias = strip_ws (str_upper alias_str);
          surface_up = strip_ws (str_upper surface_str)
      in if length alias < 2 \<or> length alias > 40 then (False, 0)
         else if \<not> regex_match alias then (False, 0)
         else
           (let clean_alias = strip_spaces_hyphens alias;
                clean_surface = strip_spaces_hyphens surface_up
            in if levenshtein_distance clean_surface clean_alias > 2 then (False, 0)
               else
                 (let score = confusion_weighted_edit_distance surface_up alias
                  in if score < 1 / 2 then (False, score) else (True, score))))"

section \<open>Specification-level notions for the commit engine\<close>

text \<open>
  The quantities the specification speaks of, defined directly on a window: the
  observations of a character that pass the voting threshold, their aggregate confidence,
  their number, and the earliest and latest of their timestamps.
\<close>

definition votes :: "real \<Rightarrow> LetterEntry list \<Rightarrow> string \<Rightarrow> LetterEntry list" where
  "votes theta w c = filter (\<lambda>e. theta \<le> le_confidence e \<and> le_char e = c) w"

definition sigma_conf :: "real \<Rightarrow> LetterEntry list \<Rightarrow> string \<Rightarrow> real" where
  "sigma_conf theta w c = sum_list (map le_confidence (votes theta w c))"

definition vote_count :: "real \<Rightarrow> LetterEntry list \<Rightarrow> string \<Rightarrow> nat" where
  "vote_count theta w c = length (votes theta w c)"

definition first_seen_of :: "real \<Rightarrow> LetterEntry list \<Rightarrow> string \<Rightarrow> real" where
  "first_seen_of theta w c = Min (set (map le_timestamp (votes theta w c)))"

definition last_seen_of :: "real \<Rightarrow> LetterEntry list \<Rightarrow> string \<Rightarrow> real" where
  "last_seen_of theta w c = Max (set (map le_timestamp (votes theta w c)))"

text \<open>Position, in the confidence-filtered window, of the first observation of a character.\<close>

definition first_pos :: "real \<Rightarrow> LetterEntry list \<Rightarrow> string \<Rightarrow> nat" where
  "first_pos theta w c =
     length (takeWhile (\<lambda>e. le_char e \<noteq> c) (filter (\<lambda>e. theta \<le> le_confidence e) w))"

text \<open>The dictionary entry that aggregates a non-empty list of observations of one character.\<close>

definition agg_of :: "LetterEntry list \<Rightarrow> CharData" where
  "agg_of es = \<lparr> total_confidence = sum_list (map le_confidence es), cd_count = length es,
       first_seen = Min (set (map le_timestamp es)), last_seen = Max (set (map le_timestamp es)) \<rparr>"

text \<open>The committed letters of a session as stored (no buffer: no letters).\<close>

definition buffer_letters :: "Redis \<Rightarrow> string \<Rightarrow> string list" where
  "buffer_letters r sid = (case words r sid of None \<Rightarrow> [] | Some b \<Rightarrow> letters b)"

text \<open>The window \<open>process_letter\<close> votes on: the stored window with the new entry pushed, then pruned.\<close>

definition pruned_window :: "Settings \<Rightarrow> real \<Rightarrow> Redis \<Rightarrow> string \<Rightarrow> LetterEntry \<Rightarrow> LetterEntry list" where
  "pruned_window cfg now r sid entry =
     fst (prune_loop (windows r sid @ [entry])
            (now - real_of_int (window_duration_ms cfg) / 1000) 0)"

section \<open>The Levenshtein distance\<close>

text \<open>
  The textbook recursion on the heads of the two strings: deleting, inserting or
  substituting one character costs 1, keeping an equal character costs 0.
\<close>

fun lev :: "'a list \<Rightarrow> 'a list \<Rightarrow> nat" where
  "lev [] ys = length ys"
| "lev (x # xs) [] = length (x # xs)"
| "lev (x # xs) (y # ys) =
     min (min (lev xs (y # ys) + 1) (lev (x # xs) ys + 1))
         (lev xs ys + (if x = y then 0 else 1))"

text \<open>
  Edit scripts: \<open>edit n xs ys\<close> holds when \<open>xs\<close> can be turned into \<open>ys\<close> by \<open>n\<close>
  single-character insertions, deletions and substitutions.
\<close>

inductive edit :: "nat \<Rightarrow> 'a list \<Rightarrow> 'a list \<Rightarrow> bool" where
  edit_Nil: "edit 0 [] []"
| edit_Keep: "edit n xs ys \<Longrightarrow> edit n (x # xs) (x # ys)"
| edit_Sub: "edit n xs ys \<Longrightarrow> edit (Suc n) (x # xs) (y # ys)"
| edit_Del: "edit n xs ys \<Longrightarrow> edit (Suc n) (x # xs) ys"
| edit_Ins: "edit n xs ys \<Longrightarrow> edit (Suc n) xs (y # ys)"

text \<open>The row of distances from \<open>p\<close> to the first \<open>n\<close> prefixes of \<open>t\<close>.\<close>

definition lev_row :: "'a list \<Rightarrow> 'a list \<Rightarrow> nat \<Rightarrow> nat list" where
  "lev_row p t n = map (\<lambda>k. lev p (take k t)) [0 ..< n]"

section \<open>Specification-level notions for the consumer\<close>

text \<open>
  \<open>no_repeat R xs\<close>: no \<open>R + 1\<close> consecutive elements of \<open>xs\<close> are all equal, that is, no
  element repeated \<open>R + 1\<close> times is a contiguous sublist of \<open>xs\<close>.
\<close>

definition no_repeat :: "nat \<Rightarrow> 'a list \<Rightarrow> bool" where
  "no_repeat R xs = (\<forall>c \<in> set xs. \<not> sublist (replicate (Suc R) c) xs)"

text \<open>The prediction carried by a stream record, if any, is a single character.\<close>

definition single_char_event :: "Env \<times> event \<Rightarrow> bool" where
  "single_char_event ev =
     (case snd ev of
        Record (Some p) arrival \<Rightarrow>
          (case lp_prediction p of Some s \<Rightarrow> length s = 1 | None \<Rightarrow> True)
      | _ \<Rightarrow> True)"

text \<open>
  Invariant of the session store: a stored buffer sits under its own session id, has no
  run of more than \<open>R\<close> equal letters, and every stored letter and window entry is a
  single character.
\<close>

definition store_inv :: "nat \<Rightarrow> Redis \<Rightarrow> bool" where
  "store_inv R r \<longleftrightarrow>
     (\<forall>sid b. words r sid = Some b \<longrightarrow>
        wb_session_id b = sid \<and> no_repeat R (letters b) \<and> (\<forall>l \<in> set (letters b). length l = 1))
     \<and> (\<forall>sid. \<forall>e \<in> set (windows r sid). length (le_char e) = 1)"

text \<open>Every word handed to the outbound worker has no run of more than \<open>R\<close> equal characters.\<close>

definition outbox_inv :: "nat \<Rightarrow> Consumer \<Rightarrow> bool" where
  "outbox_inv R c \<longleftrightarrow> (\<forall>p \<in> set (outbox c). no_repeat R (raw_word (snd p)))"

definition consumer_inv :: "nat \<Rightarrow> Consumer \<Rightarrow> bool" where
  "consumer_inv R c \<longleftrightarrow> store_inv R (redis c) \<and> outbox_inv R c"

section \<open>Specification-level notions for the resolver\<close>

text \<open>
  The candidates \<open>resolve_word\<close> obtains for a buffer, converted to search results, in the
  order in which the store returned them (none when the word is empty, the store is
  unavailable, the search raises, or a candidate has no surface).
\<close>

definition store_candidates :: "collection option \<Rightarrow> WordBuffer \<Rightarrow> SearchResult list" where
  "store_candidates coll buffer =
     (if current_word buffer = [] then []
      else case coll of
        None \<Rightarrow> []
      | Some c \<Rightarrow>
          (case atlas_fuzzy_search c (current_word buffer) (wb_user_id buffer) of
             None \<Rightarrow> []
           | Some results \<Rightarrow>
               (case convert_results (current_word buffer) results of
                  None \<Rightarrow> []
                | Some srs \<Rightarrow> srs)))"

text \<open>The hybrid score of a search result is 0.7 of its store score plus 0.3 of its alias confidence.\<close>

definition hybrid_ok :: "SearchResult \<Rightarrow> bool" where
  "hybrid_ok sr \<longleftrightarrow> hybrid_score sr = 7 / 10 * atlas_score sr + 3 / 10 * alias_confidence sr"

section \<open>Specification-level notions for the ingress\<close>



section \<open>Specification-level notions for the classifier bridge\<close>

text \<open>
  The two hand blocks of a frame, at the offsets 1536 and 1599 and 63 values long; a block
  is active when some magnitude in it exceeds 0.01.
\<close>

definition left_block :: "real list \<Rightarrow> real list" where
  "left_block frame = map (\<lambda>i. frame ! (1536 + i)) [0 ..< 63]"

definition right_block :: "real list \<Rightarrow> real list" where
  "right_block frame = map (\<lambda>i. frame ! (1599 + i)) [0 ..< 63]"

definition block_active :: "real list \<Rightarrow> bool" where
  "block_active block \<longleftrightarrow> (\<exists>v \<in> set block. 1 / 100 < \<bar>v\<bar>)"

text \<open>The frames with exactly one active hand, the block of that hand and its side.\<close>

definition one_hand_active :: "real list \<Rightarrow> bool" where
  "one_hand_active frame \<longleftrightarrow> block_active (left_block frame) \<noteq> block_active (right_block frame)"

definition active_hand_block :: "real list \<Rightarrow> real list" where
  "active_hand_block frame =
     (if block_active (right_block frame) then right_block frame else left_block frame)"

definition active_side :: "real list \<Rightarrow> string" where
  "active_side frame = (if block_active (right_block frame) then ''right'' else ''left'')"

text \<open>The 21 (x, y) points of a 63-value hand block: z is dropped.\<close>

definition block_points :: "real list \<Rightarrow> (real \<times> real) list" where
  "block_points hand_data = map (\<lambda>i. (hand_data ! (3 * i), hand_data ! (3 * i + 1))) [0 ..< 21]"

text \<open>
  Normalisation as the specification words it, value by value. The value with index
  \<open>2 * i\<close> is the x coordinate of point \<open>i\<close> and the value with index \<open>2 * i + 1\<close> its y
  coordinate, each translated by the wrist point (the point with index 0) and then divided
  by the greatest absolute value of all translated coordinates; every value is 0 when that
  maximum is zero.
\<close>

definition translated :: "(real \<times> real) list \<Rightarrow> nat \<Rightarrow> real" where
  "translated pts k =
     (if even k then fst (pts ! (k div 2)) - fst (pts ! 0)
      else snd (pts ! (k div 2)) - snd (pts ! 0))"

definition max_abs_translated :: "(real \<times> real) list \<Rightarrow> real" where
  "max_abs_translated pts = Max (set (map (\<lambda>k. \<bar>translated pts k\<bar>) [0 ..< 2 * length pts]))"

definition spec_scale :: "real \<Rightarrow> real \<Rightarrow> real" where
  "spec_scale m v = (if m = 0 then 0 else v / m)"

definition spec_normalize :: "(real \<times> real) list \<Rightarrow> real list" where
  "spec_normalize pts =
     map (\<lambda>k. spec_scale (max_abs_translated pts) (translated pts k)) [0 ..< 2 * length pts]"

text \<open>
  \<open>first_max ps i\<close>: \<open>i\<close> is the argmax of the probability vector \<open>ps\<close>, the first index
  that holds its greatest value.
\<close>

definition first_max :: "real list \<Rightarrow> nat \<Rightarrow> bool" where
  "first_max ps i \<longleftrightarrow>
     i < length ps \<and> (\<forall>j < length ps. ps ! j \<le> ps ! i) \<and> (\<forall>j < i. ps ! j < ps ! i)"

text \<open>
  The response the specification asks for: the label of the class with the \<open>ASL \<close> prefix
  removed and the probability of that class, or \<open>Unknown\<close> with confidence 0 for a class
  index without a label; with the side of the hand.
\<close>

definition spec_response :: "string list \<Rightarrow> real list \<Rightarrow> nat \<Rightarrow> string \<Rightarrow> prediction" where
  "spec_response labels ps i side =
     (if i < length labels
      then Predicted (if take 4 (labels ! i) = ''ASL '' then drop 4 (labels ! i) else labels ! i)
             (ps ! i) (Some side)
      else Predicted ''Unknown'' 0 (Some side))"

section \<open>Specification-level notions for alias validation\<close>

text \<open>
  The contribution of a pair of differing characters: the row-normalised confusion
  probability, raised to 0.4 when the pair is a known confusion with probability below 0.3.
\<close>

definition floored_prob :: "char \<Rightarrow> char \<Rightarrow> real" where
  "floored_prob s a =
     (if is_known_confusion s a \<and> get_confusion_prob s a < 3 / 10 then 4 / 10
      else get_confusion_prob s a)"

text \<open>
  The confusion-weighted score: over the aligned characters of the shorter of the two
  strings (spaces and hyphens removed), 1 for equal characters and the floored probability
  otherwise, divided by the length of the stripped surface.
\<close>

definition spec_confusion_score :: "string \<Rightarrow> string \<Rightarrow> real" where
  "spec_confusion_score surface_str alias =
     (let ss = strip_spaces_hyphens surface_str; as = strip_spaces_hyphens alias
      in (\<Sum>(s, a) \<leftarrow> zip ss as. if s = a then 1 else floored_prob s a) / real (length ss))"

text \<open>
  Acceptance as the specification words it, on the uppercased alias and surface: the
  alias matches the pattern, the edit distance of the stripped strings is at most 2, and
  the score is at least 0.5.
\<close>

definition spec_accepts :: "string \<Rightarrow> string \<Rightarrow> bool" where
  "spec_accepts surface_str alias \<longleftrightarrow>
     alias_pattern (str_upper alias)
     \<and> lev (strip_spaces_hyphens (str_upper alias)) (strip_spaces_hyphens (str_upper surface_str)) \<le> 2
     \<and> 1 / 2 \<le> spec_confusion_score (str_upper surface_str) (str_upper alias)"

text \<open>The normalisation \<open>validate_alias\<close> applies first: \<open>s.upper().strip()\<close>.\<close>

definition normalized :: "string \<Rightarrow> string" where
  "normalized s = strip_ws (str_upper s)"

section \<open>Concrete sessions used to evaluate the model\<close>

definition entry_at :: "real \<Rightarrow> LetterEntry" where
  "entry_at t = \<lparr> le_char = ''A'', le_confidence = 9 / 10, le_timestamp = t \<rparr>"

text \<open>Two records of one session whose arrival timestamps are out of order (10 s, then 1 s).\<close>

definition redis_out_of_order :: Redis where
  "redis_out_of_order =
     fst (process_letter default_settings (101 / 10) (101 / 10)
            (fst (process_letter default_settings 10 10 empty_redis ''s'' ''s'' ''A'' (9 / 10) 10))
            ''s'' ''s'' ''A'' (9 / 10) 1)"

text \<open>Two records in order, the second stamped later than the local clock reads.\<close>

definition redis_future :: Redis where
  "redis_future =
     fst (process_letter default_settings (1 / 10) (1 / 10)
            (fst (process_letter default_settings 0 0 empty_redis ''s'' ''s'' ''A'' (9 / 10) 0))
            ''s'' ''s'' ''A'' (9 / 10) 100)"

definition redis_three :: Redis where
  "redis_three =
     empty_redis\<lparr> windows := (\<lambda>_. [entry_at 0, entry_at (1 / 20), entry_at (3 / 10)]) \<rparr>"

text \<open>A session that has seen \<open>A\<close> at 0 ms and 100 ms; the next \<open>A\<close> arrives at 200 ms.\<close>

definition redis_two :: Redis where
  "redis_two = empty_redis\<lparr> windows := (\<lambda>_. [entry_at 0, entry_at (1 / 10)]) \<rparr>"

text \<open>Windows in which two characters have the same aggregate confidence.\<close>

definition w_tie :: "LetterEntry list" where
  "w_tie = [\<lparr> le_char = ''A'', le_confidence = 1 / 2, le_timestamp = 0 \<rparr>,
            \<lparr> le_char = ''B'', le_confidence = 1 / 2, le_timestamp = 1 \<rparr>]"

definition w_tie_same_time :: "LetterEntry list" where
  "w_tie_same_time = [\<lparr> le_char = ''B'', le_confidence = 1 / 2, le_timestamp = 0 \<rparr>,
                      \<lparr> le_char = ''A'', le_confidence = 1 / 2, le_timestamp = 0 \<rparr>]"

definition commit_example :: "Redis \<times> WordBuffer option" where
  "commit_example =
     process_letter default_settings (1 / 5) (1 / 5) redis_two ''s'' ''s'' ''A'' (9 / 10) (1 / 5)"

section \<open>Concrete runs of the consumer\<close>

definition env_at :: "real \<Rightarrow> Env" where
  "env_at t = \<lparr> now_prune = t, now_commit = t, now_pause = t, env_collection = None,
                 invoke_ok = True, get_buffer_ok = True, clear_word_ok = True,
                 clear_window_ok = True \<rparr>"

definition pred_A :: LetterPrediction where
  "pred_A = \<lparr> lp_session_id = ''s'', lp_event_type = ''prediction'',
               lp_prediction = Some ''A'', lp_confidence = Some (9 / 10) \<rparr>"

definition skip_s :: LetterPrediction where
  "skip_s = \<lparr> lp_session_id = ''s'', lp_event_type = ''skip'',
               lp_prediction = None, lp_confidence = None \<rparr>"

definition evs_example :: "(Env \<times> event) list" where
  "evs_example =
     [(env_at 0, Record (Some pred_A) (Some 0)),
      (env_at (1 / 10), Record (Some pred_A) (Some (1 / 10))),
      (env_at (1 / 5), Record (Some pred_A) (Some (1 / 5))),
      (env_at (3 / 10), Record (Some pred_A) (Some (3 / 10))),
      (env_at 3, Record (Some skip_s) None)]"

definition consumer_committed :: Consumer where
  "consumer_committed = \<lparr> redis = fst commit_example, outbox = [] \<rparr>"

text \<open>
  Two environments at time 3 in which the store stops answering during finalization: in
  the first the deletion of the word buffer raises, in the second the deletion of the
  window.
\<close>

definition env_buffer_kept :: Env where
  "env_buffer_kept = (env_at 3)\<lparr> clear_word_ok := False \<rparr>"

definition env_window_kept :: Env where
  "env_window_kept = (env_at 3)\<lparr> clear_window_ok := False \<rparr>"

section \<open>Concrete lexicon answers\<close>

text \<open>The lexicon entry of scenario 6 of the specification, and the buffer \<open>AWS\<close>.\<close>

definition doc_aws :: Doc where
  "doc_aws = \<lparr> d_surface = Some ''AWS'', d_aliases = Some [''AW6'', ''A W S'', ''AWS''],
       d_confidence_scores = Some [(''AWS'', 1), (''AW6'', 7 / 10), (''A W S'', 8 / 10)],
       d_score = Some 2 \<rparr>"

definition coll_aws :: collection where
  "coll_aws = (\<lambda>st q. Some [doc_aws])"

definition buffer_aws :: WordBuffer where
  "buffer_aws = \<lparr> wb_session_id = ''s'', wb_user_id = ''u'', letters = [''A'', ''W'', ''S''],
       last_commit_time = Some 0, created_at = 0 \<rparr>"

text \<open>Six candidates without aliases; the first two have the same score.\<close>

definition mk_doc :: "string \<Rightarrow> real \<Rightarrow> Doc" where
  "mk_doc s sc = \<lparr> d_surface = Some s, d_aliases = None, d_confidence_scores = None,
       d_score = Some sc \<rparr>"

definition coll_six :: collection where
  "coll_six = (\<lambda>st q. Some [mk_doc ''ZB'' 1, mk_doc ''ZA'' 1, mk_doc ''ZC'' 2, mk_doc ''ZD'' 3,
                              mk_doc ''ZE'' 4, mk_doc ''ZF'' 5])"

section \<open>Concrete gateway events\<close>










section \<open>A concrete frame\<close>

text \<open>A frame of 1662 values whose left hand block alone is non-zero.\<close>

definition left_block_example :: "real list" where
  "left_block_example = [1 / 2, 1 / 2, 0] @ replicate 60 (3 / 5)"

definition frame_example :: "real list" where
  "frame_example = replicate 1536 0 @ left_block_example @ replicate 63 0"

text \<open>
  A service with three labels whose network takes 40 values and answers with the
  probabilities 0.1, 0.7 and 0.2 when the first value of its input is 1.
\<close>

definition interpreter_example :: Interpreter where
  "interpreter_example =
     \<lparr> network = (\<lambda>row. if hd row = 1 then [1 / 10, 7 / 10, 1 / 5] else [1, 0, 0]),
       input_width = 40, input_tensor = [], output_tensor = [], invocations = [] \<rparr>"

definition service_example :: LetterService where
  "service_example =
     \<lparr> model_initialized = True, keypoint_classifier_labels = [''ASL A'', ''ASL B'', ''ASL C''],
       keypoint_classifier = interpreter_example \<rparr>"

section \<open>Concrete aliases\<close>

text \<open>The alias \<open>AB\<close> preceded by a tab character.\<close>

definition alias_tab :: string where
  "alias_tab = [CHR 0x09, CHR ''A'', CHR ''B'']"

section \<open>Properties of the commit engine\<close>

subsection \<open>Evaluation rules\<close>

lemmas engine_defs =
  process_letter_def push_letter_def prune_window_def get_window_def find_top_candidate_def
  add_entry_def total_of_def empty_redis_def default_settings_def commit_min_confidence_def
  stability_duration_ms_def get_word_buffer_def set_word_buffer_def append_to_word_def
  slice_from_def Let_def

lemmas spec_defs = votes_def sigma_conf_def vote_count_def first_seen_of_def last_seen_of_def
  first_pos_def

subsection \<open>Window pruning\<close>

lemma prune_loop_sorted:
  "sorted (map le_timestamp w) \<Longrightarrow>
   fst (prune_loop w cutoff n) = filter (\<lambda>e. cutoff \<le> le_timestamp e) w"
proof (induction w arbitrary: n)
  case Nil
  show ?case by simp
next
  case (Cons e es)
  show ?case
  proof (cases "le_timestamp e < cutoff")
    case True
    with Cons show ?thesis by simp
  next
    case False
    from Cons.prems have "\<forall>x \<in> set es. le_timestamp e \<le> le_timestamp x" by simp
    with False have "filter (\<lambda>e. cutoff \<le> le_timestamp e) es = es"
      by (intro filter_True) auto
    with False show ?thesis by simp
  qed
qed

lemma prune_loop_count:
  "snd (prune_loop w cutoff n) + length (fst (prune_loop w cutoff n)) = n + length w"
  by (induction w arbitrary: n) auto

lemma prune_window_windows:
  "windows (fst (prune_window r sid cutoff)) sid = fst (prune_loop (windows r sid) cutoff 0)"
  by (simp add: prune_window_def split: prod.splits)

text \<open>
  Claim C7 (window bound), as the code has it. \<open>prune_window\<close> pops from the left only and
  stops at the first entry that is not older than the cutoff. If the window of the session
  is in non-decreasing timestamp order, the pruned window is exactly the observations with
  \<open>timestamp \<ge> now - W_ms\<close>, so every observation with \<open>timestamp < now - W_ms\<close> has been
  removed; if moreover no timestamp lies after \<open>now\<close>, any two remaining timestamps differ
  by at most \<open>W_ms\<close> milliseconds, that is \<open>max(ts) - min(ts) \<le> W_ms\<close>.
\<close>

theorem window_bound_after_prune:
  assumes "sorted (map le_timestamp (windows r sid))"
      and "\<forall>e \<in> set (windows r sid). le_timestamp e \<le> now"
      and "cutoff = now - real_of_int W_ms / 1000"
      and "w' = windows (fst (prune_window r sid cutoff)) sid"
  shows "w' = filter (\<lambda>e. cutoff \<le> le_timestamp e) (windows r sid)
       \<and> (\<forall>e \<in> set w'. now - real_of_int W_ms / 1000 \<le> le_timestamp e)
       \<and> (\<forall>a \<in> set w'. \<forall>b \<in> set w'.
             (le_timestamp a - le_timestamp b) * 1000 \<le> real_of_int W_ms)"
proof -
  have eq: "w' = filter (\<lambda>e. cutoff \<le> le_timestamp e) (windows r sid)"
    using assms(1,4) by (simp add: prune_window_windows prune_loop_sorted)
  have lo: "\<forall>e \<in> set w'. now - real_of_int W_ms / 1000 \<le> le_timestamp e"
    using eq assms(3) by simp
  have hi: "\<forall>e \<in> set w'. le_timestamp e \<le> now"
    using eq assms(2) by simp
  have "(le_timestamp a - le_timestamp b) * 1000 \<le> real_of_int W_ms"
    if "a \<in> set w'" "b \<in> set w'" for a b
  proof -
    from that lo hi
    have "le_timestamp a \<le> now" "now - real_of_int W_ms / 1000 \<le> le_timestamp b"
      by auto
    then show ?thesis by (simp add: field_simps)
  qed
  with eq lo show ?thesis by blast
qed

theorem window_bound_after_prune_witness:
  "sorted (map le_timestamp (windows redis_three ''s''))
   \<and> list_all (\<lambda>e. le_timestamp e \<le> 3 / 10) (windows redis_three ''s'')
   \<and> windows (fst (prune_window redis_three ''s'' (3 / 10 - real_of_int 200 / 1000))) ''s''
       = [entry_at (3 / 10)]"
  using window_bound_after_prune [of redis_three "''s''" "3 / 10"
          "3 / 10 - real_of_int 200 / 1000" 200
          "windows (fst (prune_window redis_three ''s'' (3 / 10 - real_of_int 200 / 1000))) ''s''"]
  by (simp add: redis_three_def empty_redis_def entry_at_def)

text \<open>
  Claim C7 as stated fails. After \<open>process_letter\<close> has pushed and pruned (clock 10.1 s,
  \<open>W_ms = 300\<close>), the window of the out-of-order session still holds the observation stamped
  1 s, which is older than the cutoff, and its span is 9000 ms. In the second session the
  timestamps are in order and none is older than the cutoff, yet the span is 100000 ms.
\<close>

theorem window_bound_counterexample:
  "windows redis_out_of_order ''s'' = [entry_at 10, entry_at 1]
   \<and> le_timestamp (entry_at 1)
        < 101 / 10 - real_of_int (window_duration_ms default_settings) / 1000
   \<and> real_of_int (window_duration_ms default_settings)
        < (le_timestamp (entry_at 10) - le_timestamp (entry_at 1)) * 1000
   \<and> windows redis_future ''s'' = [entry_at 0, entry_at 100]
   \<and> real_of_int (window_duration_ms default_settings)
        < (le_timestamp (entry_at 100) - le_timestamp (entry_at 0)) * 1000"
  by (simp add: redis_out_of_order_def redis_future_def entry_at_def engine_defs
      split: prod.splits)

subsection \<open>Voting: what the aggregation loop and the maximum compute\<close>

lemma foldl_add_entry_map_of:
  "map_of (foldl add_entry [] es) c =
     (if filter (\<lambda>e. le_char e = c) es = [] then None
      else Some (agg_of (filter (\<lambda>e. le_char e = c) es)))"
proof (induction es rule: rev_induct)
  case Nil
  show ?case by simp
next
  case (snoc e es)
  show ?case
  proof (cases "le_char e = c")
    case False
    with snoc show ?thesis
      by (simp add: add_entry_def Let_def update_conv')
  next
    case True
    show ?thesis
    proof (cases "filter (\<lambda>e. le_char e = c) es = []")
      case True
      with \<open>le_char e = c\<close> snoc show ?thesis
        by (simp add: add_entry_def Let_def update_conv' agg_of_def)
    next
      case False
      then have ne: "set (map le_timestamp (filter (\<lambda>e. le_char e = c) es)) \<noteq> {}"
        by (metis map_is_Nil_conv set_empty)
      from False \<open>le_char e = c\<close> snoc show ?thesis
        using Min_insert[OF _ ne, of "le_timestamp e"] Max_insert[OF _ ne, of "le_timestamp e"]
        by (simp add: add_entry_def Let_def update_conv' agg_of_def min.commute max.commute)
    qed
  qed
qed

lemma foldl_add_entry_keys:
  "map fst (foldl add_entry [] es) = rev (remdups (rev (map le_char es)))"
proof (induction es rule: rev_induct)
  case Nil
  show ?case by simp
next
  case (snoc e es)
  have "set (map fst (foldl add_entry [] es)) = le_char ` set es"
    by (simp add: snoc)
  with snoc show ?case
    by (simp add: add_entry_def Let_def update_keys)
qed

lemma max_key_loop_split:
  "\<exists>pre post. best # xs = pre @ max_key_loop f best xs # post
     \<and> (\<forall>x \<in> set pre. f x < f (max_key_loop f best xs))
     \<and> (\<forall>x \<in> set post. f x \<le> f (max_key_loop f best xs))"
proof (induction xs arbitrary: best)
  case Nil
  show ?case by (intro exI[of _ "[]"]) simp
next
  case (Cons x xs)
  show ?case
  proof (cases "f best < f x")
    case True
    define m where "m = max_key_loop f x xs"
    from True have mk: "max_key_loop f best (x # xs) = m" by (simp add: m_def)
    from Cons[of x] obtain pre post where
      sp: "x # xs = pre @ m # post"
      and lt: "\<forall>y \<in> set pre. f y < f m"
      and le: "\<forall>y \<in> set post. f y \<le> f m"
      unfolding m_def by blast
    have "f x \<le> f m"
    proof (cases pre)
      case Nil
      with sp have "x = m" by simp
      then show ?thesis by simp
    next
      case (Cons p ps)
      with sp lt show ?thesis by auto
    qed
    with True have "f best < f m" by simp
    with lt have lt': "\<forall>y \<in> set (best # pre). f y < f m" by simp
    from sp have "best # x # xs = (best # pre) @ m # post" by simp
    with lt' le show ?thesis unfolding mk by blast
  next
    case False
    define m where "m = max_key_loop f best xs"
    from False have mk: "max_key_loop f best (x # xs) = m" by (simp add: m_def)
    from Cons[of best] obtain pre post where
      sp: "best # xs = pre @ m # post"
      and lt: "\<forall>y \<in> set pre. f y < f m"
      and le: "\<forall>y \<in> set post. f y \<le> f m"
      unfolding m_def by blast
    show ?thesis
    proof (cases pre)
      case Nil
      with sp have bm: "best = m" and xs: "xs = post" by simp_all
      from False bm have "f x \<le> f m" by simp
      with le have le': "\<forall>y \<in> set (x # post). f y \<le> f m" by simp
      from bm xs have "best # x # xs = [] @ m # (x # post)" by simp
      with le' show ?thesis unfolding mk by (metis empty_iff empty_set)
    next
      case (Cons p ps)
      with sp have p: "p = best" and xs: "xs = ps @ m # post" by simp_all
      from lt Cons p have "f best < f m" by simp
      with False have "f x < f m" by simp
      with lt Cons p have lt': "\<forall>y \<in> set (best # x # ps). f y < f m" by simp
      from xs have "best # x # xs = (best # x # ps) @ m # post" by simp
      with lt' le show ?thesis unfolding mk by blast
    qed
  qed
qed

lemma first_occ_pos:
  "rev (remdups (rev cs)) = pre @ r # post \<Longrightarrow> c' \<in> set post \<Longrightarrow>
   length (takeWhile (\<lambda>x. x \<noteq> r) cs) < length (takeWhile (\<lambda>x. x \<noteq> c') cs)"
proof (induction cs arbitrary: post rule: rev_induct)
  case Nil
  then show ?case by simp
next
  case (snoc x cs)
  show ?case
  proof (cases "x \<in> set cs")
    case True
    with snoc.prems have eq: "rev (remdups (rev cs)) = pre @ r # post" by simp
    from snoc.IH[OF eq snoc.prems(2)]
    have lt: "length (takeWhile (\<lambda>x. x \<noteq> r) cs) < length (takeWhile (\<lambda>x. x \<noteq> c') cs)" .
    have "r \<in> set (rev (remdups (rev cs)))" "c' \<in> set (rev (remdups (rev cs)))"
      using eq snoc.prems(2) by auto
    then have "r \<in> set cs" "c' \<in> set cs" by auto
    with lt show ?thesis by (simp add: takeWhile_append1)
  next
    case False
    with snoc.prems have eq: "rev (remdups (rev cs)) @ [x] = pre @ r # post" by simp
    from snoc.prems(2) obtain post' where post: "post = post' @ [x]"
      and eq': "rev (remdups (rev cs)) = pre @ r # post'"
      using eq by (cases post rule: rev_cases) auto
    have "r \<in> set (rev (remdups (rev cs)))" using eq' by auto
    then have r: "r \<in> set cs" by auto
    show ?thesis
    proof (cases "c' \<in> set post'")
      case True
      from snoc.IH[OF eq' True]
      have lt: "length (takeWhile (\<lambda>x. x \<noteq> r) cs) < length (takeWhile (\<lambda>x. x \<noteq> c') cs)" .
      have "c' \<in> set (rev (remdups (rev cs)))" using eq' True by auto
      then have "c' \<in> set cs" by auto
      with r lt show ?thesis by (simp add: takeWhile_append1)
    next
      case F2: False
      with snoc.prems(2) post have c': "c' = x" by auto
      with False have "takeWhile (\<lambda>y. y \<noteq> c') (cs @ [x]) = cs"
        by (subst takeWhile_append2) auto
      moreover have "length (takeWhile (\<lambda>x. x \<noteq> r) cs) < length cs"
      proof -
        have "takeWhile (\<lambda>x. x \<noteq> r) cs \<noteq> cs"
          using r by (simp add: takeWhile_eq_all_conv)
        then have "length (takeWhile (\<lambda>x. x \<noteq> r) cs) \<noteq> length cs"
          by (metis takeWhile_eq_take take_all order_refl)
        with length_takeWhile_le[of "\<lambda>x. x \<noteq> r" cs] show ?thesis by simp
      qed
      ultimately show ?thesis using r by (simp add: takeWhile_append1)
    qed
  qed
qed

lemma votes_filter:
  "votes theta w c = filter (\<lambda>e. le_char e = c) (filter (\<lambda>e. theta \<le> le_confidence e) w)"
  by (simp add: votes_def conj_commute)

lemma total_of_votes:
  "votes theta w c \<noteq> [] \<Longrightarrow>
   total_of (foldl add_entry [] (filter (\<lambda>e. theta \<le> le_confidence e) w)) c = sigma_conf theta w c"
  by (simp add: total_of_def foldl_add_entry_map_of votes_filter sigma_conf_def agg_of_def)

lemma votes_keys:
  "votes theta w c \<noteq> [] \<longleftrightarrow>
   c \<in> set (map fst (foldl add_entry [] (filter (\<lambda>e. theta \<le> le_confidence e) w)))"
  by (auto simp: foldl_add_entry_keys votes_filter filter_empty_conv)

lemma find_top_candidate_Some:
  assumes "find_top_candidate theta w = Some cand"
  shows "votes theta w (cc_char cand) \<noteq> []"
    and "aggregate_confidence cand = sigma_conf theta w (cc_char cand)"
    and "cc_count cand = vote_count theta w (cc_char cand)"
    and "cc_first_seen cand = first_seen_of theta w (cc_char cand)"
    and "cc_last_seen cand = last_seen_of theta w (cc_char cand)"
    and "votes theta w c \<noteq> [] \<Longrightarrow> sigma_conf theta w c \<le> sigma_conf theta w (cc_char cand)"
    and "votes theta w c \<noteq> [] \<Longrightarrow> sigma_conf theta w c = sigma_conf theta w (cc_char cand)
           \<Longrightarrow> c \<noteq> cc_char cand \<Longrightarrow> first_pos theta w (cc_char cand) < first_pos theta w c"
proof -
  define valid where "valid = filter (\<lambda>e. theta \<le> le_confidence e) w"
  define cd where "cd = foldl add_entry [] valid"
  from assms obtain k ks data where
    keys: "map fst cd = k # ks"
    and data: "map_of cd (max_key_loop (total_of cd) k ks) = Some data"
    and cand: "cand = \<lparr> cc_char = max_key_loop (total_of cd) k ks,
                        aggregate_confidence = total_confidence data,
                        cc_first_seen = first_seen data,
                        cc_last_seen = last_seen data,
                        cc_count = cd_count data \<rparr>"
    unfolding find_top_candidate_def Let_def valid_def[symmetric] cd_def[symmetric]
    by (auto split: if_splits list.splits option.splits)
  define top where "top = max_key_loop (total_of cd) k ks"
  have top: "cc_char cand = top" by (simp add: cand top_def)
  from max_key_loop_split[of k ks "total_of cd"] obtain pre post where
    sp: "k # ks = pre @ top # post"
    and lt: "\<forall>x \<in> set pre. total_of cd x < total_of cd top"
    and le: "\<forall>x \<in> set post. total_of cd x \<le> total_of cd top"
    unfolding top_def by blast
  have "top \<in> set (map fst cd)" using sp keys by simp
  then show v: "votes theta w (cc_char cand) \<noteq> []"
    unfolding top cd_def valid_def by (simp only: votes_keys)
  then have ne: "filter (\<lambda>e. le_char e = top) valid \<noteq> []"
    by (simp add: votes_filter valid_def top)
  have "map_of cd top = Some (agg_of (filter (\<lambda>e. le_char e = top) valid))"
    unfolding cd_def using ne by (simp only: foldl_add_entry_map_of if_False)
  moreover have "map_of cd top = Some data" using data by (simp only: top_def)
  moreover have "votes theta w top = filter (\<lambda>e. le_char e = top) valid"
    by (simp only: votes_filter valid_def)
  ultimately have d: "data = agg_of (votes theta w top)" by simp
  show "aggregate_confidence cand = sigma_conf theta w (cc_char cand)"
    by (simp add: cand d top_def[symmetric] agg_of_def sigma_conf_def)
  show "cc_count cand = vote_count theta w (cc_char cand)"
    by (simp add: cand d top_def[symmetric] agg_of_def vote_count_def)
  show "cc_first_seen cand = first_seen_of theta w (cc_char cand)"
    by (simp add: cand d top_def[symmetric] agg_of_def first_seen_of_def)
  show "cc_last_seen cand = last_seen_of theta w (cc_char cand)"
    by (simp add: cand d top_def[symmetric] agg_of_def last_seen_of_def)
  have tot: "total_of cd x = sigma_conf theta w x" if "votes theta w x \<noteq> []" for x
    using total_of_votes[OF that] by (simp add: cd_def valid_def)
  have mem: "x \<in> set (k # ks)" if "votes theta w x \<noteq> []" for x
    using that keys by (simp only: votes_keys cd_def valid_def)
  {
    assume c: "votes theta w c \<noteq> []"
    from mem[OF c] sp have "c \<in> set pre \<or> c = top \<or> c \<in> set post" by auto
    with lt le have "total_of cd c \<le> total_of cd top" by auto
    with tot[OF c] tot[of top] v top
    show "sigma_conf theta w c \<le> sigma_conf theta w (cc_char cand)" by simp
  }
  {
    assume c: "votes theta w c \<noteq> []"
      and eq: "sigma_conf theta w c = sigma_conf theta w (cc_char cand)"
      and ne: "c \<noteq> cc_char cand"
    from tot[OF c] tot[of top] v top eq have "total_of cd c = total_of cd top" by simp
    with lt have "c \<notin> set pre" by auto
    with mem[OF c] sp ne top have cp: "c \<in> set post" by auto
    have "rev (remdups (rev (map le_char valid))) = pre @ top # post"
      using sp keys by (simp add: cd_def foldl_add_entry_keys)
    from first_occ_pos[OF this cp]
    show "first_pos theta w (cc_char cand) < first_pos theta w c"
      by (simp add: first_pos_def valid_def top takeWhile_map comp_def)
  }
qed

lemma find_top_candidate_total:
  assumes "filter (\<lambda>e. theta \<le> le_confidence e) w \<noteq> []"
  shows "\<exists>cand. find_top_candidate theta w = Some cand"
proof -
  define valid where "valid = filter (\<lambda>e. theta \<le> le_confidence e) w"
  define cd where "cd = foldl add_entry [] valid"
  from assms have "map le_char valid \<noteq> []" by (simp add: valid_def)
  then have "set (rev (remdups (rev (map le_char valid)))) \<noteq> {}" by simp
  then have "map fst cd \<noteq> []" unfolding cd_def foldl_add_entry_keys by (metis set_empty)
  then obtain k ks where keys: "map fst cd = k # ks" by (cases "map fst cd") auto
  define top where "top = max_key_loop (total_of cd) k ks"
  from max_key_loop_split[of k ks "total_of cd"] have "top \<in> set (k # ks)"
    unfolding top_def by (metis in_set_conv_decomp)
  with keys have "top \<in> fst ` set cd" by (metis list.set_map)
  then obtain data where "map_of cd top = Some data"
    by (metis domD dom_map_of_conv_image_fst)
  with keys assms show ?thesis
    unfolding find_top_candidate_def Let_def valid_def[symmetric] cd_def[symmetric] top_def
    by (simp add: valid_def)
qed

subsection \<open>The steps of \<open>process_letter\<close>\<close>

lemma get_word_buffer_letters:
  "letters (snd (get_word_buffer t r sid uid)) = buffer_letters r sid"
  by (simp add: get_word_buffer_def buffer_letters_def Let_def split: option.splits)

lemma get_word_buffer_windows:
  "windows (fst (get_word_buffer t r sid uid)) = windows r"
  by (simp add: get_word_buffer_def set_word_buffer_def Let_def split: option.splits)

lemma get_word_buffer_twice:
  "get_word_buffer t r sid uid = (r1, b) \<Longrightarrow> get_word_buffer t' r1 sid uid' = (r1, b)"
  by (auto simp: get_word_buffer_def set_word_buffer_def Let_def split: option.splits)

lemma append_to_word_letters:
  "letters (snd (append_to_word t r sid uid c)) = buffer_letters r sid @ [c]"
  by (simp add: append_to_word_def get_word_buffer_def buffer_letters_def Let_def
      split: option.splits prod.splits)

lemma append_to_word_windows:
  "windows (fst (append_to_word t r sid uid c)) = windows r"
  by (simp add: append_to_word_def get_word_buffer_def set_word_buffer_def Let_def
      split: option.splits prod.splits)

lemma process_letter_unfold:
  "process_letter cfg now tc r sid uid c conf ts =
     (let w = pruned_window cfg now r sid \<lparr> le_char = c, le_confidence = conf, le_timestamp = ts \<rparr>;
          r2 = r\<lparr> windows := (windows r)(sid := w) \<rparr>
      in if w = [] then (r2, None)
         else case find_top_candidate (min_confidence cfg) w of
           None \<Rightarrow> (r2, None)
         | Some cand \<Rightarrow>
             if aggregate_confidence cand / real (cc_count cand) < commit_min_confidence
             then (r2, None)
             else if stability_duration_ms cand < real_of_int (stability_duration_ms_cfg cfg)
             then (r2, None)
             else if max_consecutive_same cfg \<le> int (length (buffer_letters r sid))
                     \<and> list_all (\<lambda>l. l = cc_char cand)
                          (slice_from (- max_consecutive_same cfg) (buffer_letters r sid))
             then (fst (get_word_buffer tc r2 sid uid), None)
             else (fst (append_to_word tc (fst (get_word_buffer tc r2 sid uid)) sid uid (cc_char cand)),
                   Some (snd (append_to_word tc (fst (get_word_buffer tc r2 sid uid)) sid uid (cc_char cand)))))"
proof -
  have bl: "letters (snd (get_word_buffer tc (r\<lparr>windows := x\<rparr>) sid uid)) = buffer_letters r sid" for x
    by (simp add: get_word_buffer_letters buffer_letters_def)
  show ?thesis
    by (simp add: process_letter_def push_letter_def prune_window_def get_window_def
        pruned_window_def Let_def bl case_prod_beta cong: option.case_cong if_cong)
qed

lemma get_word_buffer_buffer_letters [simp]:
  "buffer_letters (fst (get_word_buffer t r sid uid)) sid' = buffer_letters r sid'"
  by (simp add: get_word_buffer_def set_word_buffer_def buffer_letters_def Let_def
      split: option.splits)

lemma buffer_letters_windows_update [simp]:
  "buffer_letters (r\<lparr>windows := x\<rparr>) sid = buffer_letters r sid"
  by (simp add: buffer_letters_def)

lemma process_letter_commit:
  assumes "process_letter cfg now tc r sid uid c conf ts = (r', Some buf)"
  defines "w \<equiv> pruned_window cfg now r sid \<lparr> le_char = c, le_confidence = conf, le_timestamp = ts \<rparr>"
  shows "\<exists>cand. find_top_candidate (min_confidence cfg) w = Some cand
           \<and> \<not> aggregate_confidence cand / real (cc_count cand) < commit_min_confidence
           \<and> \<not> stability_duration_ms cand < real_of_int (stability_duration_ms_cfg cfg)
           \<and> \<not> (max_consecutive_same cfg \<le> int (length (buffer_letters r sid))
                  \<and> list_all (\<lambda>l. l = cc_char cand)
                       (slice_from (- max_consecutive_same cfg) (buffer_letters r sid)))
           \<and> letters buf = buffer_letters r sid @ [cc_char cand]
           \<and> windows r' = (windows r)(sid := w)"
  using assms(1) unfolding process_letter_unfold Let_def w_def[symmetric]
  by (auto split: if_splits option.splits
      simp: append_to_word_letters append_to_word_windows get_word_buffer_windows)

subsection \<open>Commit soundness\<close>

text \<open>
  Claim C1 (commit soundness). Whenever \<open>process_letter\<close> commits, the returned buffer is
  the stored letters of the session with one character \<open>ch\<close> appended, the window left in
  the store is the pushed and pruned window, and over that window restricted to the
  observations with confidence at least \<open>min_confidence\<close> (theta_vote, 0.3 by default) the
  character has at least one vote, aggregate confidence divided by count at least 0.4
  (theta_commit), and last_seen minus first_seen at least the configured stability
  duration in milliseconds.
\<close>

theorem commit_soundness:
  assumes "process_letter cfg now tc r sid uid c conf ts = (r', Some buf)"
  shows "\<exists>ch. letters buf = buffer_letters r sid @ [ch]
           \<and> windows r' sid
               = pruned_window cfg now r sid \<lparr> le_char = c, le_confidence = conf, le_timestamp = ts \<rparr>
           \<and> 0 < vote_count (min_confidence cfg) (windows r' sid) ch
           \<and> commit_min_confidence
                \<le> sigma_conf (min_confidence cfg) (windows r' sid) ch
                    / real (vote_count (min_confidence cfg) (windows r' sid) ch)
           \<and> real_of_int (stability_duration_ms_cfg cfg)
                \<le> (last_seen_of (min_confidence cfg) (windows r' sid) ch
                     - first_seen_of (min_confidence cfg) (windows r' sid) ch) * 1000"
proof -
  from process_letter_commit[OF assms] obtain cand where
    top: "find_top_candidate (min_confidence cfg) (windows r' sid) = Some cand"
    and avg: "\<not> aggregate_confidence cand / real (cc_count cand) < commit_min_confidence"
    and stab: "\<not> stability_duration_ms cand < real_of_int (stability_duration_ms_cfg cfg)"
    and app: "letters buf = buffer_letters r sid @ [cc_char cand]"
    and win: "windows r' sid
               = pruned_window cfg now r sid \<lparr> le_char = c, le_confidence = conf, le_timestamp = ts \<rparr>"
    by auto
  note f = find_top_candidate_Some[OF top]
  from f(1) have "0 < vote_count (min_confidence cfg) (windows r' sid) (cc_char cand)"
    by (simp add: vote_count_def)
  moreover from avg f(2,3)
  have "commit_min_confidence
          \<le> sigma_conf (min_confidence cfg) (windows r' sid) (cc_char cand)
              / real (vote_count (min_confidence cfg) (windows r' sid) (cc_char cand))"
    by simp
  moreover from stab f(4,5)
  have "real_of_int (stability_duration_ms_cfg cfg)
          \<le> (last_seen_of (min_confidence cfg) (windows r' sid) (cc_char cand)
               - first_seen_of (min_confidence cfg) (windows r' sid) (cc_char cand)) * 1000"
    by (simp add: stability_duration_ms_def)
  ultimately show ?thesis using app win by blast
qed

lemma commit_example_eval:
  "commit_example =
     (\<lparr> windows = (\<lambda>_. [entry_at 0, entry_at (1 / 10)])(''s'' := [entry_at 0, entry_at (1 / 10), entry_at (1 / 5)]),
        words = (\<lambda>_. None)(''s'' := Some \<lparr> wb_session_id = ''s'', wb_user_id = ''s'', letters = [''A''],
                    last_commit_time = Some (1 / 5), created_at = 1 / 5 \<rparr>) \<rparr>,
      Some \<lparr> wb_session_id = ''s'', wb_user_id = ''s'', letters = [''A''],
                    last_commit_time = Some (1 / 5), created_at = 1 / 5 \<rparr>)"
  by (simp add: commit_example_def redis_two_def entry_at_def engine_defs split: prod.splits)

theorem commit_soundness_witness:
  "map_option letters (snd commit_example) = Some [''A'']
   \<and> commit_min_confidence
        \<le> sigma_conf (3 / 10) (windows (fst commit_example) ''s'') ''A''
            / real (vote_count (3 / 10) (windows (fst commit_example) ''s'') ''A'')
   \<and> 200 \<le> (last_seen_of (3 / 10) (windows (fst commit_example) ''s'') ''A''
              - first_seen_of (3 / 10) (windows (fst commit_example) ''s'') ''A'') * 1000"
  using commit_soundness[OF commit_example_eval[unfolded commit_example_def]]
  by (simp add: commit_example_eval buffer_letters_def redis_two_def empty_redis_def
        default_settings_def pruned_window_def entry_at_def spec_defs commit_min_confidence_def)

subsection \<open>Choice of the candidate\<close>

text \<open>
  Claim C2 (candidate tie-breaking), as the code has it. Whenever some observation passes the
  voting threshold, \<open>_find_top_candidate\<close> returns a candidate; its character has votes
  and a maximal aggregate confidence among the characters with votes; and every other
  character with the same aggregate confidence has its first vote later in the window:
  ties go to the character that entered the dictionary first. Neither \<open>last_seen\<close> nor the
  order of the characters takes part.
\<close>

theorem top_candidate_tie_break:
  assumes "filter (\<lambda>e. theta \<le> le_confidence e) w \<noteq> []"
  shows "\<exists>cand. find_top_candidate theta w = Some cand
           \<and> votes theta w (cc_char cand) \<noteq> []
           \<and> (\<forall>c. votes theta w c \<noteq> []
                  \<longrightarrow> sigma_conf theta w c \<le> sigma_conf theta w (cc_char cand))
           \<and> (\<forall>c. votes theta w c \<noteq> [] \<and> c \<noteq> cc_char cand
                    \<and> sigma_conf theta w c = sigma_conf theta w (cc_char cand)
                  \<longrightarrow> first_pos theta w (cc_char cand) < first_pos theta w c)"
proof -
  from find_top_candidate_total[OF assms] obtain cand where
    top: "find_top_candidate theta w = Some cand" by blast
  note f = find_top_candidate_Some[OF top]
  from top f(1) f(6) f(7) show ?thesis by blast
qed

theorem top_candidate_tie_break_witness:
  "filter (\<lambda>e. (3 / 10) \<le> le_confidence e) w_tie \<noteq> []
   \<and> map_option cc_char (find_top_candidate (3 / 10) w_tie) = Some ''A''
   \<and> sigma_conf (3 / 10) w_tie ''B'' = sigma_conf (3 / 10) w_tie ''A''
   \<and> first_pos (3 / 10) w_tie ''A'' < first_pos (3 / 10) w_tie ''B''"
  using top_candidate_tie_break[of "3 / 10" w_tie]
  by (simp add: w_tie_def engine_defs spec_defs)

text \<open>
  Claim C2 as stated fails. In \<open>w_tie\<close> the characters \<open>A\<close> and \<open>B\<close> have the same
  aggregate confidence and \<open>B\<close> was seen more recently, yet \<open>A\<close> is selected. In
  \<open>w_tie_same_time\<close> the aggregate confidence and \<open>last_seen\<close> both tie, and \<open>B\<close> is
  selected although \<open>A\<close> is the lexicographically smaller character.
\<close>

theorem tie_break_counterexample:
  "map_option cc_char (find_top_candidate (3 / 10) w_tie) = Some ''A''
   \<and> sigma_conf (3 / 10) w_tie ''B'' = sigma_conf (3 / 10) w_tie ''A''
   \<and> last_seen_of (3 / 10) w_tie ''A'' < last_seen_of (3 / 10) w_tie ''B''
   \<and> map_option cc_char (find_top_candidate (3 / 10) w_tie_same_time) = Some ''B''
   \<and> sigma_conf (3 / 10) w_tie_same_time ''A'' = sigma_conf (3 / 10) w_tie_same_time ''B''
   \<and> last_seen_of (3 / 10) w_tie_same_time ''A'' = last_seen_of (3 / 10) w_tie_same_time ''B''"
  by (simp add: w_tie_def w_tie_same_time_def engine_defs spec_defs)

section \<open>Properties of the edit-distance implementations\<close>

subsection \<open>Properties of the distance\<close>

lemma lev_Nil2 [simp]: "lev xs [] = length xs"
  by (cases xs) simp_all

lemma lev_sym: "lev xs ys = lev ys xs"
  by (induction xs ys rule: lev.induct) (simp_all add: min.commute eq_commute)

lemma lev_zero_iff: "lev xs ys = 0 \<longleftrightarrow> xs = ys"
  by (induction xs ys rule: lev.induct) auto

lemma lev_Cons_le: "lev (x # xs) ys \<le> Suc (lev xs ys)"
  by (cases ys) simp_all

lemma lev_Cons_le2: "lev xs (y # ys) \<le> Suc (lev xs ys)"
  by (cases xs) simp_all

lemma lev_le_Cons: "lev xs ys \<le> Suc (lev (c # xs) ys)"
proof (induction ys arbitrary: xs c)
  case Nil
  show ?case by simp
next
  case (Cons y ys)
  have a: "lev xs (y # ys) \<le> Suc (lev xs ys)" by (rule lev_Cons_le2)
  from Cons[of xs c] have b: "lev xs ys \<le> Suc (lev (c # xs) ys)" .
  show ?case using a b by (simp add: min_def)
qed

lemma lev_le_Cons2: "lev xs ys \<le> Suc (lev xs (c # ys))"
  using lev_le_Cons[of ys xs c] by (simp add: lev_sym)

lemma lev_Cons_same: "lev (x # xs) (x # ys) = lev xs ys"
  using lev_le_Cons[of xs ys x] lev_le_Cons2[of xs ys x] by simp

lemma lev_Cons_diff:
  "x \<noteq> y \<Longrightarrow> lev (x # xs) (y # ys) = 1 + min (lev xs ys) (min (lev xs (y # ys)) (lev (x # xs) ys))"
  by (simp add: min_def)

subsection \<open>Edit scripts\<close>

lemma edit_Nil_left: "edit (length ys) [] ys"
  by (induction ys) (auto intro: edit.intros)

lemma edit_Nil_right: "edit (length xs) xs []"
  by (induction xs) (auto intro: edit.intros)

lemma edit_lev: "edit (lev xs ys) xs ys"
proof (induction xs ys rule: lev.induct)
  case (1 ys)
  show ?case using edit_Nil_left[of ys] by simp
next
  case (2 x xs)
  show ?case using edit_Nil_right[of "x # xs"] by simp
next
  case (3 x xs y ys)
  show ?case
  proof (cases "x = y")
    case True
    from 3(3) have "edit (lev xs ys) (x # xs) (x # ys)" by (rule edit_Keep)
    with True show ?thesis by (simp only: lev_Cons_same)
  next
    case False
    have d: "edit (lev xs (y # ys) + 1) (x # xs) (y # ys)"
      using 3(1) by (auto intro: edit_Del)
    have i: "edit (lev (x # xs) ys + 1) (x # xs) (y # ys)"
      using 3(2) by (auto intro: edit_Ins)
    have s: "edit (lev xs ys + 1) (x # xs) (y # ys)"
      using 3(3) by (auto intro: edit_Sub)
    from False d i s show ?thesis by (simp add: min_def)
  qed
qed

lemma lev_least: "edit n xs ys \<Longrightarrow> lev xs ys \<le> n"
proof (induction rule: edit.induct)
  case edit_Nil
  show ?case by simp
next
  case (edit_Keep n xs ys x)
  then show ?case by simp
next
  case (edit_Sub n xs ys x y)
  then show ?case by (simp add: min_def)
next
  case (edit_Del n xs ys x)
  with lev_Cons_le[of x xs ys] show ?case by simp
next
  case (edit_Ins n xs ys y)
  with lev_Cons_le2[of xs y ys] show ?case by simp
qed

lemma edit_append: "edit n xs ys \<Longrightarrow> edit m xs' ys' \<Longrightarrow> edit (n + m) (xs @ xs') (ys @ ys')"
  by (induction rule: edit.induct) (auto intro: edit.intros)

lemma edit_rev: "edit n xs ys \<Longrightarrow> edit n (rev xs) (rev ys)"
proof (induction rule: edit.induct)
  case edit_Nil
  show ?case by (simp add: edit.edit_Nil)
next
  case (edit_Keep n xs ys x)
  have "edit 0 [x] [x]" by (intro edit.intros)
  from edit_append[OF edit_Keep.IH this] show ?case by simp
next
  case (edit_Sub n xs ys x y)
  have "edit 1 [x] [y]" using edit.edit_Sub[OF edit.edit_Nil] by simp
  from edit_append[OF edit_Sub.IH this] show ?case by simp
next
  case (edit_Del n xs ys x)
  have "edit 1 [x] []" using edit.edit_Del[OF edit.edit_Nil] by simp
  from edit_append[OF edit_Del.IH this] show ?case by simp
next
  case (edit_Ins n xs ys y)
  have "edit 1 [] [y]" using edit.edit_Ins[OF edit.edit_Nil] by simp
  from edit_append[OF edit_Ins.IH this] show ?case by simp
qed

lemma lev_rev: "lev (rev xs) (rev ys) = lev xs ys"
proof (rule antisym)
  show "lev (rev xs) (rev ys) \<le> lev xs ys"
    by (rule lev_least[OF edit_rev[OF edit_lev]])
  have "edit (lev (rev xs) (rev ys)) (rev (rev xs)) (rev (rev ys))"
    by (rule edit_rev[OF edit_lev])
  then show "lev xs ys \<le> lev (rev xs) (rev ys)"
    using lev_least by fastforce
qed

lemma lev_snoc_same: "lev (xs @ [x]) (ys @ [x]) = lev xs ys"
proof -
  have "lev (xs @ [x]) (ys @ [x]) = lev (rev (xs @ [x])) (rev (ys @ [x]))"
    by (simp only: lev_rev)
  also have "\<dots> = lev (x # rev xs) (x # rev ys)" by simp
  also have "\<dots> = lev (rev xs) (rev ys)" by (rule lev_Cons_same)
  also have "\<dots> = lev xs ys" by (rule lev_rev)
  finally show ?thesis .
qed

lemma lev_snoc:
  "lev (xs @ [x]) (ys @ [y]) =
     min (min (lev xs (ys @ [y]) + 1) (lev (xs @ [x]) ys + 1)) (lev xs ys + (if x = y then 0 else 1))"
proof -
  have "lev (xs @ [x]) (ys @ [y]) = lev (x # rev xs) (y # rev ys)"
    using lev_rev[of "xs @ [x]" "ys @ [y]"] by simp
  also have "\<dots> = min (min (lev (rev xs) (y # rev ys) + 1) (lev (x # rev xs) (rev ys) + 1))
                       (lev (rev xs) (rev ys) + (if x = y then 0 else 1))"
    by (simp only: lev.simps)
  also have "lev (rev xs) (y # rev ys) = lev xs (ys @ [y])"
    using lev_rev[of xs "ys @ [y]"] by simp
  also have "lev (x # rev xs) (rev ys) = lev (xs @ [x]) ys"
    using lev_rev[of "xs @ [x]" ys] by simp
  also have "lev (rev xs) (rev ys) = lev xs ys" by (rule lev_rev)
  finally show ?thesis .
qed

lemma lev_snoc_diff:
  "x \<noteq> y \<Longrightarrow> lev (xs @ [x]) (ys @ [y]) = 1 + min (lev xs ys) (min (lev xs (ys @ [y])) (lev (xs @ [x]) ys))"
  by (simp add: lev_snoc min_def)

subsection \<open>The rows computed by the two implementations\<close>

lemma lev_row_nth: "k < n \<Longrightarrow> lev_row p t n ! k = lev p (take k t)"
  by (simp add: lev_row_def)

lemma lev_row_Suc: "lev_row p t (Suc n) = lev_row p t n @ [lev p (take n t)]"
  by (simp add: lev_row_def)

lemma lev_row_last: "last (lev_row p t (Suc (length t))) = lev p t"
  by (simp add: lev_row_Suc)

lemma lev_row_Nil: "lev_row [] t (Suc (length t)) = [0 ..< length t + 1]"
  by (rule nth_equalityI) (simp_all add: lev_row_def del: upt_Suc)

lemma kb_inner_row:
  assumes "j \<le> length t"
      and "previous_row = lev_row p t (Suc (length t))"
      and "current_row = lev_row (p @ [c1]) t (Suc j)"
  shows "kb_inner c1 previous_row (List.enumerate j (drop j t)) current_row
           = lev_row (p @ [c1]) t (Suc (length t))"
  using assms
proof (induction "length t - j" arbitrary: j current_row)
  case 0
  then show ?case by simp
next
  case (Suc n)
  then have j: "j < length t" by simp
  then have dr: "drop j t = t ! j # drop (Suc j) t" by (simp add: Cons_nth_drop_Suc)
  have tk: "take (Suc j) t = take j t @ [t ! j]" using j by (simp add: take_Suc_conv_app_nth)
  define new where "new = min (previous_row ! (j + 1) + 1)
     (min (current_row ! j + 1) (previous_row ! j + (if c1 = t ! j then 0 else 1)))"
  have "new = lev (p @ [c1]) (take (Suc j) t)"
    unfolding new_def tk lev_snoc using j Suc.prems(2,3)
    by (simp add: lev_row_nth tk min.assoc)
  then have cur': "current_row @ [new] = lev_row (p @ [c1]) t (Suc (Suc j))"
    using Suc.prems(3) by (simp add: lev_row_Suc)
  have "kb_inner c1 previous_row (List.enumerate j (drop j t)) current_row
          = kb_inner c1 previous_row (List.enumerate (Suc j) (drop (Suc j) t)) (current_row @ [new])"
    by (simp add: dr new_def Let_def)
  also have "\<dots> = lev_row (p @ [c1]) t (Suc (length t))"
    using Suc.hyps(2) j Suc.prems(2) cur' by (intro Suc.hyps(1)) auto
  finally show ?case .
qed

lemma kb_outer_row:
  assumes "i \<le> length s"
      and "previous_row = lev_row (take i s) t (Suc (length t))"
  shows "kb_outer t (List.enumerate i (drop i s)) previous_row = lev_row s t (Suc (length t))"
  using assms
proof (induction "length s - i" arbitrary: i previous_row)
  case 0
  then show ?case by simp
next
  case (Suc n)
  then have i: "i < length s" by simp
  then have dr: "drop i s = s ! i # drop (Suc i) s" by (simp add: Cons_nth_drop_Suc)
  have tk: "take (Suc i) s = take i s @ [s ! i]" using i by (simp add: take_Suc_conv_app_nth)
  have first: "[i + 1] = lev_row (take i s @ [s ! i]) t (Suc 0)"
    using i by (simp add: lev_row_def)
  have row: "kb_inner (s ! i) previous_row (List.enumerate 0 t) [i + 1]
               = lev_row (take (Suc i) s) t (Suc (length t))"
    using kb_inner_row[of 0 t previous_row "take i s" "[i + 1]" "s ! i"] Suc.prems(2) first
    by (simp add: tk)
  have "kb_outer t (List.enumerate i (drop i s)) previous_row
          = kb_outer t (List.enumerate (Suc i) (drop (Suc i) s))
              (kb_inner (s ! i) previous_row (List.enumerate 0 t) [i + 1])"
    by (simp add: dr)
  also have "\<dots> = lev_row s t (Suc (length t))"
    using Suc.hyps(2) i row by (intro Suc.hyps(1)) auto
  finally show ?case .
qed

lemma kb_body_lev:
  "last (kb_outer s2 (List.enumerate 0 s1) [0 ..< length s2 + 1]) = lev s1 s2"
  using kb_outer_row[of 0 s1 "[0 ..< length s2 + 1]" s2]
  by (simp add: lev_row_Nil lev_row_last del: upt_Suc)

lemma kb_body_lev':
  "last (kb_outer s2 (List.enumerate 0 s1) [0 ..< Suc (length s2)]) = lev s1 s2"
  using kb_body_lev[of s2 s1] by (simp del: upt_Suc)

lemma levenshtein_distance_lev: "levenshtein_distance s1 s2 = lev s1 s2"
proof (cases "length s1 < length s2")
  case True
  then have "levenshtein_distance s1 s2 = levenshtein_distance s2 s1" by simp
  also have "\<dots> = lev s2 s1"
    using True by (simp add: kb_body_lev' del: upt_Suc)
  finally show ?thesis by (simp add: lev_sym)
next
  case False
  then show ?thesis by (simp add: kb_body_lev' del: upt_Suc)
qed

lemma wr_inner_row:
  assumes "i1 \<le> length t"
      and "distances = lev_row p t (Suc (length t))"
      and "distances' = lev_row (p @ [c2]) t (Suc i1)"
  shows "wr_inner c2 distances (List.enumerate i1 (drop i1 t)) distances'
           = lev_row (p @ [c2]) t (Suc (length t))"
  using assms
proof (induction "length t - i1" arbitrary: i1 distances')
  case 0
  then show ?case by simp
next
  case (Suc n)
  then have j: "i1 < length t" by simp
  then have dr: "drop i1 t = t ! i1 # drop (Suc i1) t" by (simp add: Cons_nth_drop_Suc)
  have tk: "take (Suc i1) t = take i1 t @ [t ! i1]" using j by (simp add: take_Suc_conv_app_nth)
  define new where "new = (if t ! i1 = c2 then distances ! i1
     else 1 + min (distances ! i1) (min (distances ! (i1 + 1)) (last distances')))"
  have lst: "last distances' = lev (p @ [c2]) (take i1 t)"
    using Suc.prems(3) by (simp add: lev_row_Suc)
  have "new = lev (p @ [c2]) (take (Suc i1) t)"
  proof (cases "t ! i1 = c2")
    case True
    then show ?thesis
      unfolding new_def tk using j Suc.prems(2) by (simp add: lev_row_nth lev_snoc_same)
  next
    case False
    then have "c2 \<noteq> t ! i1" by auto
    from lev_snoc_diff[OF this, of p "take i1 t"] False show ?thesis
      unfolding new_def tk using j Suc.prems(2) by (simp add: lev_row_nth lst tk)
  qed
  then have cur': "distances' @ [new] = lev_row (p @ [c2]) t (Suc (Suc i1))"
    using Suc.prems(3) by (simp add: lev_row_Suc)
  have "wr_inner c2 distances (List.enumerate i1 (drop i1 t)) distances'
          = wr_inner c2 distances (List.enumerate (Suc i1) (drop (Suc i1) t)) (distances' @ [new])"
    by (simp add: dr new_def)
  also have "\<dots> = lev_row (p @ [c2]) t (Suc (length t))"
    using Suc.hyps(2) j Suc.prems(2) cur' by (intro Suc.hyps(1)) auto
  finally show ?case .
qed

lemma wr_outer_row:
  assumes "i \<le> length s"
      and "distances = lev_row (take i s) t (Suc (length t))"
  shows "wr_outer t (List.enumerate i (drop i s)) distances = lev_row s t (Suc (length t))"
  using assms
proof (induction "length s - i" arbitrary: i distances)
  case 0
  then show ?case by simp
next
  case (Suc n)
  then have i: "i < length s" by simp
  then have dr: "drop i s = s ! i # drop (Suc i) s" by (simp add: Cons_nth_drop_Suc)
  have tk: "take (Suc i) s = take i s @ [s ! i]" using i by (simp add: take_Suc_conv_app_nth)
  have first: "[i + 1] = lev_row (take i s @ [s ! i]) t (Suc 0)"
    using i by (simp add: lev_row_def)
  have row: "wr_inner (s ! i) distances (List.enumerate 0 t) [i + 1]
               = lev_row (take (Suc i) s) t (Suc (length t))"
    using wr_inner_row[of 0 t distances "take i s" "[i + 1]" "s ! i"] Suc.prems(2) first
    by (simp add: tk)
  have "wr_outer t (List.enumerate i (drop i s)) distances
          = wr_outer t (List.enumerate (Suc i) (drop (Suc i) s))
              (wr_inner (s ! i) distances (List.enumerate 0 t) [i + 1])"
    by (simp add: dr)
  also have "\<dots> = lev_row s t (Suc (length t))"
    using Suc.hyps(2) i row by (intro Suc.hyps(1)) auto
  finally show ?case .
qed

lemma wr_body_lev:
  "last (wr_outer s1 (List.enumerate 0 s2) [0 ..< Suc (length s1)]) = lev s2 s1"
  using wr_outer_row[of 0 s2 "[0 ..< length s1 + 1]" s1]
  by (simp add: lev_row_Nil lev_row_last del: upt_Suc)

lemma wr_levenshtein_distance_lev: "wr_levenshtein_distance s1 s2 = lev s1 s2"
  by (simp add: wr_levenshtein_distance_def wr_body_lev lev_sym del: upt_Suc)

subsection \<open>The two implementations compute the Levenshtein distance\<close>

text \<open>
  Claim C10. For every pair of strings, \<open>WordResolver._levenshtein_distance\<close> and the alias
  builder's \<open>levenshtein_distance\<close> return the same value, and that value is the
  Levenshtein distance \<open>lev\<close>, which is zero exactly when the strings are equal and is
  symmetric in its arguments.
\<close>

theorem levenshtein_implementations_agree:
  "wr_levenshtein_distance s1 s2 = levenshtein_distance s1 s2
   \<and> levenshtein_distance s1 s2 = lev s1 s2
   \<and> (lev s1 s2 = 0 \<longleftrightarrow> s1 = s2)
   \<and> lev s1 s2 = lev s2 s1"
proof -
  have "wr_levenshtein_distance s1 s2 = levenshtein_distance s1 s2"
    by (simp only: wr_levenshtein_distance_lev levenshtein_distance_lev)
  moreover have "levenshtein_distance s1 s2 = lev s1 s2" by (rule levenshtein_distance_lev)
  moreover have "lev s1 s2 = 0 \<longleftrightarrow> s1 = s2" by (rule lev_zero_iff)
  moreover have "lev s1 s2 = lev s2 s1" by (rule lev_sym)
  ultimately show ?thesis by blast
qed

text \<open>\<open>lev\<close> is the least cost of an edit script that turns one string into the other.\<close>

lemma lev_is_least_edit_cost: "edit (lev s t) s t \<and> (\<forall>n. edit n s t \<longrightarrow> lev s t \<le> n)"
  using edit_lev lev_least by blast

section \<open>Properties of the consumer\<close>

subsection \<open>Runs of equal letters\<close>

lemma no_repeat_all: "no_repeat R xs \<longleftrightarrow> (\<forall>c. \<not> sublist (replicate (Suc R) c) xs)"
proof -
  have "c \<in> set xs" if "sublist (replicate (Suc R) c) xs" for c
    using set_mono_sublist[OF that] by auto
  then show ?thesis unfolding no_repeat_def by blast
qed

lemma no_repeat_Nil [simp]: "no_repeat R []"
  by (simp add: no_repeat_def)

lemma suffix_replicate_check:
  assumes "1 \<le> R"
  shows "(R \<le> int (length xs) \<and> list_all (\<lambda>l. l = c) (slice_from (- R) xs))
           \<longleftrightarrow> suffix (replicate (nat R) c) xs"
proof
  assume a: "R \<le> int (length xs) \<and> list_all (\<lambda>l. l = c) (slice_from (- R) xs)"
  with assms have sl: "slice_from (- R) xs = drop (length xs - nat R) xs"
    by (simp add: slice_from_def nat_diff_distrib')
  from a assms have "nat R \<le> length xs" by linarith
  then have len: "length (drop (length xs - nat R) xs) = nat R" by simp
  from a sl have "\<forall>l \<in> set (drop (length xs - nat R) xs). l = c" by (simp add: list_all_iff)
  with len have "drop (length xs - nat R) xs = replicate (nat R) c"
    by (metis replicate_length_same)
  then show "suffix (replicate (nat R) c) xs" by (metis suffix_drop)
next
  assume s: "suffix (replicate (nat R) c) xs"
  then obtain zs where xs: "xs = zs @ replicate (nat R) c" by (auto simp: suffix_def)
  with assms have le: "R \<le> int (length xs)" by simp
  with assms have sl: "slice_from (- R) xs = drop (length xs - nat R) xs"
    by (simp add: slice_from_def nat_diff_distrib')
  have "drop (length xs - nat R) xs = replicate (nat R) c" using xs by simp
  with le sl show "R \<le> int (length xs) \<and> list_all (\<lambda>l. l = c) (slice_from (- R) xs)"
    by (simp add: list_all_iff)
qed

lemma no_repeat_snoc:
  assumes "no_repeat R xs" and "\<not> suffix (replicate R c) xs"
  shows "no_repeat R (xs @ [c])"
proof -
  have "\<not> sublist (replicate (Suc R) d) (xs @ [c])" for d
  proof
    assume "sublist (replicate (Suc R) d) (xs @ [c])"
    then consider "suffix (replicate (Suc R) d) (xs @ [c])" | "sublist (replicate (Suc R) d) xs"
      by (auto simp: sublist_snoc)
    then show False
    proof cases
      case 1
      have "replicate (Suc R) d = replicate R d @ [d]" by (simp add: replicate_append_same)
      with 1 have "suffix (replicate R d @ [d]) (xs @ [c])" by (simp only:)
      then have "d = c \<and> suffix (replicate R d) xs" by (rule snoc_suffix_snoc[THEN iffD1])
      with assms(2) show False by blast
    next
      case 2
      with assms(1) show False by (simp add: no_repeat_all)
    qed
  qed
  then show ?thesis by (simp add: no_repeat_all)
qed

lemma no_repeat_concat_singles:
  assumes "no_repeat R ls" and "\<forall>l \<in> set ls. length l = 1"
  shows "no_repeat R (concat ls)"
proof -
  from assms(2) have ls: "ls = map (\<lambda>c. [c]) (concat ls)"
  proof (induction ls)
    case Nil
    show ?case by simp
  next
    case (Cons l ls)
    then obtain c where "l = [c]" by (cases l) auto
    with Cons show ?case by simp
  qed
  have "\<not> sublist (replicate (Suc R) ch) (concat ls)" for ch
  proof
    assume "sublist (replicate (Suc R) ch) (concat ls)"
    from map_mono_sublist[OF this, of "\<lambda>c. [c]"] ls
    have "sublist (replicate (Suc R) [ch]) ls" by (simp del: replicate_Suc)
    with assms(1) show False by (simp add: no_repeat_all)
  qed
  then show ?thesis by (simp add: no_repeat_all)
qed

subsection \<open>Finalization\<close>

lemma raw_word_resolve_word [simp]:
  "raw_word (resolve_word coll now buffer m) = current_word buffer"
  by (simp add: resolve_word_def empty_resolved_def Let_def split: option.splits)

lemma finalize_word_cases:
  "finalize_word env c sid m =
     (if \<not> get_buffer_ok env then c
      else if buffer_letters (redis c) sid = []
      then c\<lparr> redis := fst (get_word_buffer (now_pause env) (redis c) sid sid) \<rparr>
      else \<lparr> redis =
               (if \<not> clear_word_ok env
                then fst (get_word_buffer (now_pause env) (redis c) sid sid)
                else if \<not> clear_window_ok env
                then clear_word_buffer (fst (get_word_buffer (now_pause env) (redis c) sid sid)) sid
                else clear_window (clear_word_buffer
                        (fst (get_word_buffer (now_pause env) (redis c) sid sid)) sid) sid),
             outbox = (if invoke_ok env
                       then outbox c @ [(sid, resolve_word (env_collection env) (now_pause env)
                                                (snd (get_word_buffer (now_pause env) (redis c) sid sid)) m)]
                       else outbox c) \<rparr>)"
  by (simp add: finalize_word_def Let_def case_prod_beta get_word_buffer_letters)

lemma check_pause_cases:
  "check_pause cfg now r sid =
     (fst (get_word_buffer now r sid ''temp''),
      buffer_letters r sid \<noteq> []
        \<and> (\<exists>b t. words r sid = Some b \<and> last_commit_time b = Some t
                 \<and> real_of_int (pause_duration_ms cfg) \<le> (now - t) * 1000))"
  by (auto simp: check_pause_def Let_def case_prod_beta get_word_buffer_letters
        time_since_last_commit_ms_def get_word_buffer_def buffer_letters_def
      split: option.splits)

lemma finalize_word_emits:
  assumes "outbox (finalize_word env c sid m) \<noteq> outbox c"
  shows "\<exists>rw. outbox (finalize_word env c sid m) = outbox c @ [(sid, rw)]
              \<and> raw_word rw = concat (buffer_letters (redis c) sid)"
    and "redis (finalize_word env c sid m) =
           (if \<not> clear_word_ok env
            then fst (get_word_buffer (now_pause env) (redis c) sid sid)
            else if \<not> clear_window_ok env
            then clear_word_buffer (fst (get_word_buffer (now_pause env) (redis c) sid sid)) sid
            else clear_window (clear_word_buffer
                    (fst (get_word_buffer (now_pause env) (redis c) sid sid)) sid) sid)"
  using assms
  by (auto simp: finalize_word_cases current_word_def get_word_buffer_letters split: if_splits)

lemma finalize_word_store:
  assumes "outbox (finalize_word env c sid m) \<noteq> outbox c"
  shows "clear_word_ok env \<and> clear_window_ok env \<longrightarrow>
           windows (redis (finalize_word env c sid m)) sid = []
         \<and> words (redis (finalize_word env c sid m)) sid = None
         \<and> buffer_letters (redis (finalize_word env c sid m)) sid = []"
    and "\<not> clear_word_ok env \<longrightarrow>
           windows (redis (finalize_word env c sid m)) sid = windows (redis c) sid
         \<and> buffer_letters (redis (finalize_word env c sid m)) sid = buffer_letters (redis c) sid"
    and "clear_word_ok env \<and> \<not> clear_window_ok env \<longrightarrow>
           windows (redis (finalize_word env c sid m)) sid = windows (redis c) sid
         \<and> words (redis (finalize_word env c sid m)) sid = None"
  unfolding finalize_word_emits(2)[OF assms]
  by (simp_all add: clear_window_def clear_word_buffer_def buffer_letters_def
        get_word_buffer_windows get_word_buffer_buffer_letters[unfolded buffer_letters_def])

text \<open>
  Claim C6 (finalization atomicity), as the code has it. \<open>_finalize_word\<close> hands the word to
  the outbound worker first and then deletes the word buffer and the window in two separate
  store calls, inside a \<open>try\<close> whose handler only logs. So: whenever \<open>_finalize_word\<close> hands
  a ResolvedWord to the outbound worker and both deletions succeed, the window and the word
  buffer of that session are empty when it returns. Finalization is reached only through
  \<open>check_pause\<close>: when the guarded call emits, the stored buffer was non-empty and the
  pause-check clock reading minus \<open>last_commit_time\<close> was at least \<open>pause_duration_ms\<close>
  (2000 by default), and the emitted word is the concatenation of the stored letters; then
  window and buffer are empty on return if both deletions succeed, both are still stored
  as they were if the first deletion (of the word buffer) raises, and the buffer is gone
  but the window is still stored if only the second deletion raises.
\<close>

theorem finalization_atomicity:
  "(outbox (finalize_word env c sid m) \<noteq> outbox c \<and> clear_word_ok env \<and> clear_window_ok env \<longrightarrow>
       windows (redis (finalize_word env c sid m)) sid = []
     \<and> words (redis (finalize_word env c sid m)) sid = None
     \<and> buffer_letters (redis (finalize_word env c sid m)) sid = [])
   \<and> (outbox (check_and_finalize cfg env c sid m) \<noteq> outbox c \<longrightarrow>
       buffer_letters (redis c) sid \<noteq> []
     \<and> (\<exists>b t. words (redis c) sid = Some b \<and> last_commit_time b = Some t
              \<and> real_of_int (pause_duration_ms cfg) \<le> (now_pause env - t) * 1000)
     \<and> (\<exists>rw. outbox (check_and_finalize cfg env c sid m) = outbox c @ [(sid, rw)]
              \<and> raw_word rw = concat (buffer_letters (redis c) sid))
     \<and> (clear_word_ok env \<and> clear_window_ok env \<longrightarrow>
           windows (redis (check_and_finalize cfg env c sid m)) sid = []
         \<and> words (redis (check_and_finalize cfg env c sid m)) sid = None
         \<and> buffer_letters (redis (check_and_finalize cfg env c sid m)) sid = [])
     \<and> (\<not> clear_word_ok env \<longrightarrow>
           windows (redis (check_and_finalize cfg env c sid m)) sid = windows (redis c) sid
         \<and> buffer_letters (redis (check_and_finalize cfg env c sid m)) sid
             = buffer_letters (redis c) sid)
     \<and> (clear_word_ok env \<and> \<not> clear_window_ok env \<longrightarrow>
           windows (redis (check_and_finalize cfg env c sid m)) sid = windows (redis c) sid
         \<and> words (redis (check_and_finalize cfg env c sid m)) sid = None))"
proof (intro conjI)
  show "outbox (finalize_word env c sid m) \<noteq> outbox c \<and> clear_word_ok env \<and> clear_window_ok env \<longrightarrow>
       windows (redis (finalize_word env c sid m)) sid = []
     \<and> words (redis (finalize_word env c sid m)) sid = None
     \<and> buffer_letters (redis (finalize_word env c sid m)) sid = []"
    using finalize_word_store(1)[of env c sid m] by blast
next
  show "outbox (check_and_finalize cfg env c sid m) \<noteq> outbox c \<longrightarrow>
       buffer_letters (redis c) sid \<noteq> []
     \<and> (\<exists>b t. words (redis c) sid = Some b \<and> last_commit_time b = Some t
              \<and> real_of_int (pause_duration_ms cfg) \<le> (now_pause env - t) * 1000)
     \<and> (\<exists>rw. outbox (check_and_finalize cfg env c sid m) = outbox c @ [(sid, rw)]
              \<and> raw_word rw = concat (buffer_letters (redis c) sid))
     \<and> (clear_word_ok env \<and> clear_window_ok env \<longrightarrow>
           windows (redis (check_and_finalize cfg env c sid m)) sid = []
         \<and> words (redis (check_and_finalize cfg env c sid m)) sid = None
         \<and> buffer_letters (redis (check_and_finalize cfg env c sid m)) sid = [])
     \<and> (\<not> clear_word_ok env \<longrightarrow>
           windows (redis (check_and_finalize cfg env c sid m)) sid = windows (redis c) sid
         \<and> buffer_letters (redis (check_and_finalize cfg env c sid m)) sid
             = buffer_letters (redis c) sid)
     \<and> (clear_word_ok env \<and> \<not> clear_window_ok env \<longrightarrow>
           windows (redis (check_and_finalize cfg env c sid m)) sid = windows (redis c) sid
         \<and> words (redis (check_and_finalize cfg env c sid m)) sid = None)"
  proof
    assume a: "outbox (check_and_finalize cfg env c sid m) \<noteq> outbox c"
    define c1 where "c1 = c\<lparr> redis := fst (get_word_buffer (now_pause env) (redis c) sid ''temp'') \<rparr>"
    have pause: "buffer_letters (redis c) sid \<noteq> []
          \<and> (\<exists>b t. words (redis c) sid = Some b \<and> last_commit_time b = Some t
                   \<and> real_of_int (pause_duration_ms cfg) \<le> (now_pause env - t) * 1000)"
      and eq: "check_and_finalize cfg env c sid m = finalize_word env c1 sid m"
      using a by (auto simp: check_and_finalize_def check_pause_cases c1_def split: if_splits)
    from a eq have a1: "outbox (finalize_word env c1 sid m) \<noteq> outbox c1" by (simp add: c1_def)
    have bl: "buffer_letters (redis c1) sid = buffer_letters (redis c) sid"
      and wn: "windows (redis c1) sid = windows (redis c) sid"
      and ob: "outbox c1 = outbox c"
      by (simp_all add: c1_def get_word_buffer_windows)
    note em = finalize_word_emits(1)[OF a1, unfolded bl ob, folded eq]
    note st = finalize_word_store[OF a1, unfolded bl wn, folded eq]
    from pause em st show "buffer_letters (redis c) sid \<noteq> []
     \<and> (\<exists>b t. words (redis c) sid = Some b \<and> last_commit_time b = Some t
              \<and> real_of_int (pause_duration_ms cfg) \<le> (now_pause env - t) * 1000)
     \<and> (\<exists>rw. outbox (check_and_finalize cfg env c sid m) = outbox c @ [(sid, rw)]
              \<and> raw_word rw = concat (buffer_letters (redis c) sid))
     \<and> (clear_word_ok env \<and> clear_window_ok env \<longrightarrow>
           windows (redis (check_and_finalize cfg env c sid m)) sid = []
         \<and> words (redis (check_and_finalize cfg env c sid m)) sid = None
         \<and> buffer_letters (redis (check_and_finalize cfg env c sid m)) sid = [])
     \<and> (\<not> clear_word_ok env \<longrightarrow>
           windows (redis (check_and_finalize cfg env c sid m)) sid = windows (redis c) sid
         \<and> buffer_letters (redis (check_and_finalize cfg env c sid m)) sid
             = buffer_letters (redis c) sid)
     \<and> (clear_word_ok env \<and> \<not> clear_window_ok env \<longrightarrow>
           windows (redis (check_and_finalize cfg env c sid m)) sid = windows (redis c) sid
         \<and> words (redis (check_and_finalize cfg env c sid m)) sid = None)"
      by blast
  qed
qed

subsection \<open>Anti-repetition\<close>

lemma store_inv_empty: "store_inv R empty_redis"
  by (simp add: store_inv_def empty_redis_def)

lemma store_inv_get_word_buffer:
  assumes "store_inv R r"
  shows "store_inv R (fst (get_word_buffer t r sid uid))"
    and "words (fst (get_word_buffer t r sid uid)) sid = Some (snd (get_word_buffer t r sid uid))"
    and "wb_session_id (snd (get_word_buffer t r sid uid)) = sid"
  using assms
  by (auto simp: store_inv_def get_word_buffer_def set_word_buffer_def Let_def
      split: option.splits)

lemma store_inv_clear:
  "store_inv R r \<Longrightarrow> store_inv R (clear_window r sid)"
  "store_inv R r \<Longrightarrow> store_inv R (clear_word_buffer r sid)"
  by (auto simp: store_inv_def clear_window_def clear_word_buffer_def)

lemma store_inv_buffer_letters:
  assumes "store_inv R r"
  shows "no_repeat R (buffer_letters r sid)" and "\<forall>l \<in> set (buffer_letters r sid). length l = 1"
proof -
  show "no_repeat R (buffer_letters r sid)"
    using assms by (cases "words r sid") (auto simp: store_inv_def buffer_letters_def)
  show "\<forall>l \<in> set (buffer_letters r sid). length l = 1"
    using assms by (cases "words r sid") (auto simp: store_inv_def buffer_letters_def)
qed

lemma prune_loop_subset: "set (fst (prune_loop w cutoff n)) \<subseteq> set w"
  by (induction w arbitrary: n) auto

lemma pruned_window_subset:
  "set (pruned_window cfg now r sid entry) \<subseteq> insert entry (set (windows r sid))"
  using prune_loop_subset[of "windows r sid @ [entry]"] by (auto simp: pruned_window_def)

lemma store_inv_windows_update:
  assumes "store_inv R r" and "\<forall>e \<in> set w. length (le_char e) = 1"
  shows "store_inv R (r\<lparr> windows := (windows r)(sid := w) \<rparr>)"
  using assms by (auto simp: store_inv_def)

lemma append_to_word_store:
  assumes "store_inv R r"
  shows "fst (append_to_word t r sid uid c)
           = (fst (get_word_buffer t r sid uid))\<lparr> words := (words (fst (get_word_buffer t r sid uid)))
                 (sid := Some (snd (append_to_word t r sid uid c))) \<rparr>"
  using store_inv_get_word_buffer(3)[OF assms, of t sid uid]
  by (simp add: append_to_word_def set_word_buffer_def case_prod_beta Let_def)

lemma append_to_word_session:
  assumes "store_inv R r"
  shows "wb_session_id (snd (append_to_word t r sid uid c)) = sid"
  using store_inv_get_word_buffer(3)[OF assms, of t sid uid]
  by (simp add: append_to_word_def case_prod_beta Let_def)

lemma store_inv_append:
  assumes "store_inv R r" and "length c = 1" and "\<not> suffix (replicate R c) (buffer_letters r sid)"
  shows "store_inv R (fst (append_to_word t r sid uid c))"
proof -
  define r1 where "r1 = fst (get_word_buffer t r sid uid)"
  define b where "b = snd (append_to_word t r sid uid c)"
  have inv1: "store_inv R r1" unfolding r1_def by (rule store_inv_get_word_buffer(1)[OF assms(1)])
  have lb: "letters b = buffer_letters r sid @ [c]" by (simp add: b_def append_to_word_letters)
  have nr: "no_repeat R (letters b)"
    unfolding lb by (rule no_repeat_snoc[OF store_inv_buffer_letters(1)[OF assms(1)] assms(3)])
  have sg: "\<forall>l \<in> set (letters b). length l = 1"
    unfolding lb using store_inv_buffer_letters(2)[OF assms(1), of sid] assms(2) by auto
  have sid: "wb_session_id b = sid" unfolding b_def by (rule append_to_word_session[OF assms(1)])
  have "fst (append_to_word t r sid uid c) = r1\<lparr> words := (words r1)(sid := Some b) \<rparr>"
    unfolding r1_def b_def by (rule append_to_word_store[OF assms(1)])
  with inv1 nr sg sid show ?thesis by (auto simp: store_inv_def)
qed

lemma find_top_candidate_char:
  assumes "find_top_candidate theta w = Some cand"
  shows "\<exists>e \<in> set w. le_char e = cc_char cand"
proof -
  from find_top_candidate_Some(1)[OF assms] obtain e where "e \<in> set (votes theta w (cc_char cand))"
    by (cases "votes theta w (cc_char cand)") auto
  then show ?thesis by (auto simp: votes_def)
qed

lemma store_inv_process_letter:
  assumes inv: "store_inv (nat (max_consecutive_same cfg)) r"
      and R: "1 \<le> max_consecutive_same cfg"
      and c: "length c = 1"
  shows "store_inv (nat (max_consecutive_same cfg)) (fst (process_letter cfg now tc r sid uid c conf ts))"
proof -
  define w where "w = pruned_window cfg now r sid \<lparr> le_char = c, le_confidence = conf, le_timestamp = ts \<rparr>"
  define r2 where "r2 = r\<lparr> windows := (windows r)(sid := w) \<rparr>"
  have ws: "\<forall>e \<in> set w. length (le_char e) = 1"
    using pruned_window_subset[of cfg now r sid "\<lparr> le_char = c, le_confidence = conf, le_timestamp = ts \<rparr>"]
      inv c by (auto simp: w_def store_inv_def)
  have inv2: "store_inv (nat (max_consecutive_same cfg)) r2"
    unfolding r2_def by (rule store_inv_windows_update[OF inv ws])
  have inv3: "store_inv (nat (max_consecutive_same cfg)) (fst (get_word_buffer tc r2 sid uid))"
    by (rule store_inv_get_word_buffer(1)[OF inv2])
  have bl3: "buffer_letters (fst (get_word_buffer tc r2 sid uid)) sid = buffer_letters r sid"
    by (simp add: r2_def)
  have commit: "store_inv (nat (max_consecutive_same cfg))
          (fst (append_to_word tc (fst (get_word_buffer tc r2 sid uid)) sid uid (cc_char cand)))"
    if top: "find_top_candidate (min_confidence cfg) w = Some cand"
      and chk: "\<not> (max_consecutive_same cfg \<le> int (length (buffer_letters r sid))
                  \<and> list_all (\<lambda>l. l = cc_char cand)
                       (slice_from (- max_consecutive_same cfg) (buffer_letters r sid)))"
    for cand
  proof -
    from find_top_candidate_char[OF top] ws have len: "length (cc_char cand) = 1" by auto
    from chk have "\<not> suffix (replicate (nat (max_consecutive_same cfg)) (cc_char cand))
                      (buffer_letters r sid)"
      unfolding suffix_replicate_check[OF R] .
    then have "\<not> suffix (replicate (nat (max_consecutive_same cfg)) (cc_char cand))
                      (buffer_letters (fst (get_word_buffer tc r2 sid uid)) sid)"
      unfolding bl3 .
    then show ?thesis
      by (rule store_inv_append[OF inv3 len])
  qed
  show ?thesis
    unfolding process_letter_unfold Let_def w_def[symmetric] r2_def[symmetric]
    using inv2 inv3 commit by (auto split: option.splits)
qed

lemma consumer_inv_finalize_word:
  assumes "consumer_inv R c"
  shows "consumer_inv R (finalize_word env c sid m)"
proof -
  from assms have st: "store_inv R (redis c)" and ob: "outbox_inv R c"
    by (simp_all add: consumer_inv_def)
  note g = store_inv_get_word_buffer[OF st, of "now_pause env" sid sid]
  have nr: "no_repeat R (current_word (snd (get_word_buffer (now_pause env) (redis c) sid sid)))"
    unfolding current_word_def get_word_buffer_letters
    by (rule no_repeat_concat_singles[OF store_inv_buffer_letters[OF st]])
  show ?thesis
    unfolding finalize_word_cases consumer_inv_def
    using st g(1) ob nr store_inv_clear[of R]
    by (auto simp: outbox_inv_def)
qed

lemma consumer_inv_check_and_finalize:
  assumes "consumer_inv R c"
  shows "consumer_inv R (check_and_finalize cfg env c sid m)"
proof -
  from assms have st: "store_inv R (redis c)" and ob: "outbox_inv R c"
    by (simp_all add: consumer_inv_def)
  have "consumer_inv R (c\<lparr> redis := fst (get_word_buffer (now_pause env) (redis c) sid ''temp'') \<rparr>)"
    using store_inv_get_word_buffer(1)[OF st] ob by (simp add: consumer_inv_def outbox_inv_def)
  then show ?thesis
    by (simp add: check_and_finalize_def check_pause_cases consumer_inv_finalize_word)
qed

lemma consumer_inv_step:
  assumes "consumer_inv (nat (max_consecutive_same cfg)) c"
      and "1 \<le> max_consecutive_same cfg"
      and "single_char_event ev"
  shows "consumer_inv (nat (max_consecutive_same cfg)) (step cfg c ev)"
proof (cases ev)
  case (Pair env e)
  from assms(1) have st: "store_inv (nat (max_consecutive_same cfg)) (redis c)"
    and ob: "outbox_inv (nat (max_consecutive_same cfg)) c"
    by (simp_all add: consumer_inv_def)
  show ?thesis
  proof (cases e)
    case (Record data arrival)
    show ?thesis
    proof (cases data)
      case None
      with Pair Record assms(1) show ?thesis by (simp add: process_record_def)
    next
      case (Some p)
      have pl: "consumer_inv (nat (max_consecutive_same cfg))
                  (c\<lparr> redis := fst (process_letter cfg t1 t2 (redis c) sid uid ch conf ts) \<rparr>)"
        if "length ch = 1" for t1 t2 sid uid ch conf ts
        using store_inv_process_letter[OF st assms(2) that] ob
        by (simp add: consumer_inv_def outbox_inv_def)
      have len: "length s = 1" if "lp_prediction p = Some s" for s
        using assms(3) that Pair Record Some by (simp add: single_char_event_def)
      show ?thesis
        using Pair Record Some assms(1) pl len
        by (auto simp: process_record_def Let_def case_prod_beta
              consumer_inv_check_and_finalize split: option.splits)
    qed
  next
    case (Sweep sid)
    with Pair assms(1) show ?thesis by (simp add: consumer_inv_check_and_finalize)
  next
    case (Expire_window sid)
    with Pair st ob show ?thesis
      by (simp add: consumer_inv_def outbox_inv_def store_inv_clear)
  next
    case (Expire_word sid)
    with Pair st ob show ?thesis
      by (simp add: consumer_inv_def outbox_inv_def store_inv_clear)
  qed
qed

lemma consumer_inv_run:
  assumes "consumer_inv (nat (max_consecutive_same cfg)) c"
      and "1 \<le> max_consecutive_same cfg"
      and "list_all single_char_event evs"
  shows "consumer_inv (nat (max_consecutive_same cfg)) (run cfg c evs)"
  using assms unfolding run_def
proof (induction evs arbitrary: c)
  case Nil
  then show ?case by simp
next
  case (Cons ev evs)
  from Cons.prems have "consumer_inv (nat (max_consecutive_same cfg)) (step cfg c ev)"
    by (intro consumer_inv_step) simp_all
  with Cons show ?case by simp
qed

lemma consumer_inv_initial: "consumer_inv R initial_consumer"
  by (simp add: consumer_inv_def initial_consumer_def store_inv_empty outbox_inv_def)

lemma process_letter_rejects:
  assumes "1 \<le> max_consecutive_same cfg"
      and "find_top_candidate (min_confidence cfg)
             (pruned_window cfg now r sid \<lparr> le_char = c, le_confidence = conf, le_timestamp = ts \<rparr>)
           = Some cand"
      and "suffix (replicate (nat (max_consecutive_same cfg)) (cc_char cand)) (buffer_letters r sid)"
  shows "snd (process_letter cfg now tc r sid uid c conf ts) = None"
    and "buffer_letters (fst (process_letter cfg now tc r sid uid c conf ts)) sid
           = buffer_letters r sid"
proof -
  from assms(3) have chk: "max_consecutive_same cfg \<le> int (length (buffer_letters r sid))
       \<and> list_all (\<lambda>l. l = cc_char cand)
            (slice_from (- max_consecutive_same cfg) (buffer_letters r sid))"
    unfolding suffix_replicate_check[OF assms(1)] .
  from assms(2) have ne: "pruned_window cfg now r sid
          \<lparr> le_char = c, le_confidence = conf, le_timestamp = ts \<rparr> \<noteq> []"
    by (auto simp: find_top_candidate_def)
  show "snd (process_letter cfg now tc r sid uid c conf ts) = None"
    unfolding process_letter_unfold Let_def using assms(2) chk ne by simp
  show "buffer_letters (fst (process_letter cfg now tc r sid uid c conf ts)) sid
           = buffer_letters r sid"
    unfolding process_letter_unfold Let_def using assms(2) chk ne by simp
qed

text \<open>
  Claim C5 (anti-repetition), for \<open>R_max = max_consecutive_same \<ge> 1\<close>. First, whenever the
  stored letters of the session end with \<open>R_max\<close> letters all equal to the candidate,
  \<open>process_letter\<close> commits nothing and leaves the letters as they are. Consequently, in
  every run of the consumer from the empty store on records whose predictions are single
  characters (with sweeps and key expiry interleaved at will), no word handed to the
  outbound worker contains \<open>R_max + 1\<close> consecutive equal characters.
\<close>

theorem anti_repetition:
  assumes "1 \<le> max_consecutive_same cfg"
  shows "(find_top_candidate (min_confidence cfg)
             (pruned_window cfg now r sid \<lparr> le_char = c, le_confidence = conf, le_timestamp = ts \<rparr>)
            = Some cand
          \<and> suffix (replicate (nat (max_consecutive_same cfg)) (cc_char cand)) (buffer_letters r sid)
          \<longrightarrow> snd (process_letter cfg now tc r sid uid c conf ts) = None
              \<and> buffer_letters (fst (process_letter cfg now tc r sid uid c conf ts)) sid
                  = buffer_letters r sid)
       \<and> (list_all single_char_event evs
          \<longrightarrow> list_all (\<lambda>p. no_repeat (nat (max_consecutive_same cfg)) (raw_word (snd p)))
                (outbox (run cfg initial_consumer evs)))"
proof (intro conjI impI)
  assume a: "find_top_candidate (min_confidence cfg)
             (pruned_window cfg now r sid \<lparr> le_char = c, le_confidence = conf, le_timestamp = ts \<rparr>)
            = Some cand
          \<and> suffix (replicate (nat (max_consecutive_same cfg)) (cc_char cand)) (buffer_letters r sid)"
  from process_letter_rejects[OF assms conjunct1[OF a] conjunct2[OF a]]
  show "snd (process_letter cfg now tc r sid uid c conf ts) = None"
    and "buffer_letters (fst (process_letter cfg now tc r sid uid c conf ts)) sid
                  = buffer_letters r sid" by auto
next
  assume "list_all single_char_event evs"
  from consumer_inv_run[OF consumer_inv_initial assms this]
  show "list_all (\<lambda>p. no_repeat (nat (max_consecutive_same cfg)) (raw_word (snd p)))
                (outbox (run cfg initial_consumer evs))"
    by (simp add: consumer_inv_def outbox_inv_def list_all_iff)
qed

lemmas consumer_defs = run_def initial_consumer_def process_record_def check_and_finalize_def
  check_pause_def finalize_word_def resolve_word_def empty_resolved_def current_word_def
  time_since_last_commit_ms_def clear_window_def clear_word_buffer_def

lemma evs_example_run:
  "map (\<lambda>p. raw_word (snd p)) (outbox (run default_settings initial_consumer evs_example)) = [''A'']"
  by (simp add: evs_example_def env_at_def pred_A_def skip_s_def consumer_defs engine_defs
      split: prod.splits)

lemma no_repeat_example: "no_repeat 1 ''A''"
  by (simp add: no_repeat_def sublist_Cons_right)

theorem anti_repetition_witness:
  "1 \<le> max_consecutive_same default_settings
   \<and> list_all single_char_event evs_example
   \<and> map (\<lambda>p. raw_word (snd p)) (outbox (run default_settings initial_consumer evs_example)) = [''A'']
   \<and> list_all (\<lambda>p. no_repeat (nat (max_consecutive_same default_settings)) (raw_word (snd p)))
        (outbox (run default_settings initial_consumer evs_example))
   \<and> buffer_letters (fst commit_example) ''s'' = [''A'']
   \<and> snd (process_letter default_settings (3 / 10) (3 / 10) (fst commit_example)
             ''s'' ''s'' ''A'' (9 / 10) (3 / 10)) = None"
proof -
  have h1: "1 \<le> max_consecutive_same default_settings" by (simp add: default_settings_def)
  have h2: "list_all single_char_event evs_example"
    by (simp add: evs_example_def single_char_event_def pred_A_def skip_s_def)
  have bl: "buffer_letters (fst commit_example) ''s'' = [''A'']"
    by (simp add: commit_example_eval buffer_letters_def)
  have top: "find_top_candidate (min_confidence default_settings)
               (pruned_window default_settings (3 / 10) (fst commit_example) ''s''
                  \<lparr> le_char = ''A'', le_confidence = 9 / 10, le_timestamp = 3 / 10 \<rparr>)
             = Some \<lparr> cc_char = ''A'', aggregate_confidence = 9 / 10 + 9 / 10 + 9 / 10 + 9 / 10,
                      cc_first_seen = 0, cc_last_seen = 3 / 10, cc_count = 4 \<rparr>"
    by (simp add: commit_example_eval pruned_window_def entry_at_def engine_defs)
  have sf: "suffix (replicate (nat (max_consecutive_same default_settings)) ''A'')
              (buffer_letters (fst commit_example) ''s'')"
    by (simp add: bl default_settings_def)
  note inst = anti_repetition[OF h1, of "3 / 10" "fst commit_example" "''s''" "''A''" "9 / 10" "3 / 10"
      "\<lparr> cc_char = ''A'', aggregate_confidence = 9 / 10 + 9 / 10 + 9 / 10 + 9 / 10,
                      cc_first_seen = 0, cc_last_seen = 3 / 10, cc_count = 4 \<rparr>"
      "3 / 10" "''s''" evs_example]
  from inst top sf h2
  have "snd (process_letter default_settings (3 / 10) (3 / 10) (fst commit_example)
             ''s'' ''s'' ''A'' (9 / 10) (3 / 10)) = None"
    and "list_all (\<lambda>p. no_repeat (nat (max_consecutive_same default_settings)) (raw_word (snd p)))
        (outbox (run default_settings initial_consumer evs_example))"
    by simp_all
  with h1 h2 bl evs_example_run show ?thesis by blast
qed

theorem finalization_atomicity_witness:
  "outbox (check_and_finalize default_settings (env_at 3) consumer_committed ''s'' ''fuzzy'')
     \<noteq> outbox consumer_committed
   \<and> clear_word_ok (env_at 3) \<and> clear_window_ok (env_at 3)
   \<and> map (\<lambda>p. raw_word (snd p))
        (outbox (check_and_finalize default_settings (env_at 3) consumer_committed ''s'' ''fuzzy''))
       = [''A'']
   \<and> windows (redis (check_and_finalize default_settings (env_at 3) consumer_committed
                        ''s'' ''fuzzy'')) ''s'' = []
   \<and> words (redis (check_and_finalize default_settings (env_at 3) consumer_committed
                      ''s'' ''fuzzy'')) ''s'' = None
   \<and> outbox (finalize_word (env_at 3) consumer_committed ''s'' ''fuzzy'') \<noteq> outbox consumer_committed
   \<and> windows (redis (finalize_word (env_at 3) consumer_committed ''s'' ''fuzzy'')) ''s'' = []
   \<and> outbox (check_and_finalize default_settings env_window_kept consumer_committed ''s'' ''fuzzy'')
        \<noteq> outbox consumer_committed
   \<and> clear_word_ok env_window_kept \<and> \<not> clear_window_ok env_window_kept
   \<and> words (redis (check_and_finalize default_settings env_window_kept consumer_committed
                      ''s'' ''fuzzy'')) ''s'' = None
   \<and> windows (redis (check_and_finalize default_settings env_window_kept consumer_committed
                        ''s'' ''fuzzy'')) ''s'' = windows (redis consumer_committed) ''s''"
proof -
  have e1: "outbox (check_and_finalize default_settings (env_at 3) consumer_committed ''s'' ''fuzzy'')
     \<noteq> outbox consumer_committed"
    and e2: "map (\<lambda>p. raw_word (snd p))
        (outbox (check_and_finalize default_settings (env_at 3) consumer_committed ''s'' ''fuzzy''))
       = [''A'']"
    and e3: "outbox (finalize_word (env_at 3) consumer_committed ''s'' ''fuzzy'') \<noteq> outbox consumer_committed"
    and e4: "clear_word_ok (env_at 3) \<and> clear_window_ok (env_at 3)"
    and e5: "outbox (check_and_finalize default_settings env_window_kept consumer_committed ''s'' ''fuzzy'')
        \<noteq> outbox consumer_committed"
    and e6: "clear_word_ok env_window_kept \<and> \<not> clear_window_ok env_window_kept"
    by (simp_all add: consumer_committed_def commit_example_eval env_at_def env_window_kept_def
          consumer_defs get_word_buffer_def default_settings_def Let_def)
  from finalization_atomicity[of "env_at 3" consumer_committed "''s''" "''fuzzy''" default_settings]
    finalization_atomicity[of env_window_kept consumer_committed "''s''" "''fuzzy''" default_settings]
    e1 e2 e3 e4 e5 e6
  show ?thesis by blast
qed

text \<open>
  The claim as the specification words it fails when the store does not answer the first
  deletion: the session \<open>s\<close> has committed the letter A and then pauses for more than two
  seconds; the word A is handed to the outbound worker, \<open>clear_word_buffer\<close> raises, the
  handler logs, and \<open>_finalize_word\<close> returns with the letter still buffered and the three
  observations still in the window.
\<close>

theorem finalization_atomicity_counterexample:
  "map (\<lambda>p. raw_word (snd p))
      (outbox (check_and_finalize default_settings env_buffer_kept consumer_committed ''s'' ''fuzzy''))
     = [''A'']
   \<and> outbox consumer_committed = []
   \<and> buffer_letters (redis (check_and_finalize default_settings env_buffer_kept consumer_committed
                               ''s'' ''fuzzy'')) ''s'' = [''A'']
   \<and> length (windows (redis (check_and_finalize default_settings env_buffer_kept consumer_committed
                                ''s'' ''fuzzy'')) ''s'') = 3
   \<and> map (\<lambda>p. raw_word (snd p))
        (outbox (finalize_word env_buffer_kept consumer_committed ''s'' ''fuzzy'')) = [''A'']
   \<and> buffer_letters (redis (finalize_word env_buffer_kept consumer_committed ''s'' ''fuzzy'')) ''s''
       = [''A'']
   \<and> length (windows (redis (finalize_word env_buffer_kept consumer_committed ''s'' ''fuzzy'')) ''s'')
       = 3"
  by (simp add: consumer_committed_def commit_example_eval env_at_def env_buffer_kept_def
        consumer_defs get_word_buffer_def default_settings_def buffer_letters_def Let_def)
section \<open>Properties of the resolver\<close>

lemma convert_results_Some_Nil [simp]: "convert_results raw rs = Some [] \<longleftrightarrow> rs = []"
  by (cases rs) (auto split: option.splits)

lemma all_results_resolve_word:
  "all_results (resolve_word coll now buffer m)
     = sort_reverse hybrid_score (store_candidates coll buffer)"
  by (auto simp: resolve_word_def store_candidates_def empty_resolved_def sort_reverse_def Let_def
      split: option.splits)

lemma to_search_result_hybrid:
  "to_search_result raw result = Some sr \<Longrightarrow> hybrid_ok sr"
  by (auto simp: to_search_result_def hybrid_ok_def Let_def split: option.splits)

lemma convert_results_hybrid:
  "convert_results raw rs = Some srs \<Longrightarrow> list_all hybrid_ok srs"
proof (induction rs arbitrary: srs)
  case Nil
  then show ?case by simp
next
  case (Cons r rs)
  then show ?case
    by (auto split: option.splits dest: to_search_result_hybrid)
qed

lemma store_candidates_hybrid: "list_all hybrid_ok (store_candidates coll buffer)"
  using convert_results_hybrid
  by (auto simp: store_candidates_def split: option.splits)

lemma length_convert_results:
  "convert_results raw rs = Some srs \<Longrightarrow> length srs = length rs"
  by (induction rs arbitrary: srs) (auto split: option.splits)

lemma store_candidates_le_20: "length (store_candidates coll buffer) \<le> 20"
  by (auto simp: store_candidates_def atlas_fuzzy_search_def Let_def
      split: option.splits dest!: length_convert_results)

lemma set_sort_reverse [simp]: "set (sort_reverse f xs) = set xs"
  by (simp add: sort_reverse_def)

lemma length_sort_reverse [simp]: "length (sort_reverse f xs) = length xs"
  by (simp add: sort_reverse_def)

lemma sorted_sort_reverse: "sorted_wrt (\<lambda>a b. f b \<le> f a) (sort_reverse f xs)"
proof -
  have "sorted (map (\<lambda>x. - f x) (sort_key (\<lambda>x. - f x) xs))" by (rule sorted_sort_key)
  then show ?thesis by (simp add: sort_reverse_def sorted_map)
qed

lemma sort_reverse_stable:
  "filter (\<lambda>x. f x = k) (sort_reverse f xs) = filter (\<lambda>x. f x = k) xs"
proof -
  have "filter (\<lambda>y. - f y = - k) (sort_key (\<lambda>x. - f x) xs) = filter (\<lambda>y. - f y = - k) xs"
    by (rule sort_key_stable)
  then show ?thesis by (simp add: sort_reverse_def)
qed

lemma sort_reverse_hd:
  assumes "xs \<noteq> []"
  shows "sort_reverse f xs \<noteq> []" and "\<forall>x \<in> set xs. f x \<le> f (hd (sort_reverse f xs))"
proof -
  from assms show ne: "sort_reverse f xs \<noteq> []"
    by (metis length_sort_reverse length_0_conv)
  then obtain y ys where ys: "sort_reverse f xs = y # ys" by (cases "sort_reverse f xs") auto
  from sorted_sort_reverse[of f xs] ys have "\<forall>x \<in> set ys. f x \<le> f y" by simp
  then have "\<forall>x \<in> set (y # ys). f x \<le> f y" by simp
  then show "\<forall>x \<in> set xs. f x \<le> f (hd (sort_reverse f xs))"
    using ys by (metis list.sel(1) set_sort_reverse)
qed

text \<open>
  Claim C3 (resolver ranking), as the code has it. Every element of \<open>all_results\<close> is one of
  the store's candidates and has \<open>hybrid_score = 0.7 * atlas_score + 0.3 * alias_confidence\<close>;
  \<open>all_results\<close> is sorted by \<open>hybrid_score\<close> descending; results with equal
  \<open>hybrid_score\<close> stand in the order in which the store returned their candidates; when
  there is a candidate, \<open>all_results\<close> is not empty and its first element has the greatest
  hybrid score of all candidates; when there is none, \<open>all_results\<close> is empty.
\<close>

theorem resolver_ranking:
  "(\<forall>sr \<in> set (all_results (resolve_word coll now buffer m)).
        sr \<in> set (store_candidates coll buffer)
      \<and> hybrid_score sr = 7 / 10 * atlas_score sr + 3 / 10 * alias_confidence sr)
   \<and> sorted_wrt (\<lambda>a b. hybrid_score b \<le> hybrid_score a)
        (all_results (resolve_word coll now buffer m))
   \<and> (\<forall>k. subseq (filter (\<lambda>sr. hybrid_score sr = k) (all_results (resolve_word coll now buffer m)))
               (store_candidates coll buffer))
   \<and> (store_candidates coll buffer \<noteq> [] \<longrightarrow>
         all_results (resolve_word coll now buffer m) \<noteq> []
       \<and> (\<forall>c \<in> set (store_candidates coll buffer).
             hybrid_score c \<le> hybrid_score (hd (all_results (resolve_word coll now buffer m)))))
   \<and> (store_candidates coll buffer = [] \<longrightarrow> all_results (resolve_word coll now buffer m) = [])"
proof -
  let ?res = "all_results (resolve_word coll now buffer m)"
  let ?cands = "store_candidates coll buffer"
  have res: "?res = sort_reverse hybrid_score ?cands" by (rule all_results_resolve_word)
  have 1: "\<forall>sr \<in> set ?res. sr \<in> set ?cands
             \<and> hybrid_score sr = 7 / 10 * atlas_score sr + 3 / 10 * alias_confidence sr"
    using store_candidates_hybrid[of coll buffer]
    by (simp add: res list_all_iff hybrid_ok_def)
  have 2: "sorted_wrt (\<lambda>a b. hybrid_score b \<le> hybrid_score a) ?res"
    unfolding res by (rule sorted_sort_reverse)
  have 3: "subseq (filter (\<lambda>sr. hybrid_score sr = k) ?res) ?cands" for k
    unfolding res sort_reverse_stable by simp
  have 4: "?cands \<noteq> [] \<longrightarrow> ?res \<noteq> [] \<and> (\<forall>c \<in> set ?cands. hybrid_score c \<le> hybrid_score (hd ?res))"
    unfolding res using sort_reverse_hd[of ?cands hybrid_score] by blast
  have 5: "?cands = [] \<longrightarrow> ?res = []" by (simp add: res sort_reverse_def)
  from 1 2 3 4 5 show ?thesis by blast
qed



lemmas resolver_defs = resolve_word_def atlas_fuzzy_search_def annotate_def
  find_best_matching_alias_def or_else_def get_alias_confidence_def to_search_result_def
  sort_reverse_def empty_resolved_def current_word_def str_upper_def str_lower_def
  upper_char_def lower_char_def char_of_def strip_spaces_hyphens_def
  wr_levenshtein_distance_def enumerate_eq_zip Let_def

lemma resolve_word_aws: "all_results (resolve_word (Some coll_aws) 0 buffer_aws ''fuzzy'')
     = [\<lparr> surface = ''AWS'', atlas_score = 2, alias_confidence = 8 / 10,
          hybrid_score = 41 / 25, matched_via = Some ''A W S'' \<rparr>]"
  by (simp add: coll_aws_def doc_aws_def buffer_aws_def resolver_defs)

lemma resolve_word_six: "map surface (all_results (resolve_word (Some coll_six) 0 buffer_aws ''fuzzy''))
     = [''ZF'', ''ZE'', ''ZD'', ''ZC'', ''ZB'', ''ZA'']"
  by (simp add: coll_six_def mk_doc_def buffer_aws_def resolver_defs)

theorem resolver_ranking_witness:
  "store_candidates (Some coll_aws) buffer_aws \<noteq> []
   \<and> all_results (resolve_word (Some coll_aws) 0 buffer_aws ''fuzzy'')
     = [\<lparr> surface = ''AWS'', atlas_score = 2, alias_confidence = 8 / 10,
          hybrid_score = 41 / 25, matched_via = Some ''A W S'' \<rparr>]
   \<and> (41 / 25 :: real) = 7 / 10 * 2 + 3 / 10 * (8 / 10)"
  using resolver_ranking[of "Some coll_aws" 0 buffer_aws "''fuzzy''"]
  by (simp add: resolve_word_aws all_results_resolve_word[symmetric, of "Some coll_aws" buffer_aws 0 "''fuzzy''"]
        sort_reverse_def)

text \<open>
  Claim C3 as stated fails. For six candidates the resolver returns six results, not at most
  five, and the two results with equal hybrid score 0.7 keep the store's order \<open>ZB\<close>,
  \<open>ZA\<close>, not the ascending order of their surfaces.
\<close>

theorem resolver_ranking_counterexample:
  "map surface (all_results (resolve_word (Some coll_six) 0 buffer_aws ''fuzzy''))
     = [''ZF'', ''ZE'', ''ZD'', ''ZC'', ''ZB'', ''ZA'']
   \<and> map hybrid_score (all_results (resolve_word (Some coll_six) 0 buffer_aws ''fuzzy''))
     = [7 / 2, 14 / 5, 21 / 10, 7 / 5, 7 / 10, 7 / 10]
   \<and> length (all_results (resolve_word (Some coll_six) 0 buffer_aws ''fuzzy'')) = 6"
  by (simp add: coll_six_def mk_doc_def buffer_aws_def resolver_defs)

section \<open>Properties of the ingress handler\<close>




section \<open>Properties of the classifier bridge\<close>

subsection \<open>Extraction of the hand\<close>

lemma xy_points_multiple:
  "length xs = 3 * n \<Longrightarrow>
   xy_points xs = Inr (map (\<lambda>i. (xs ! (3 * i), xs ! (3 * i + 1))) [0 ..< n])"
proof (induction n arbitrary: xs)
  case 0
  then show ?case by simp
next
  case (Suc n)
  then obtain x y z rest where xs: "xs = x # y # z # rest" and len: "length rest = 3 * n"
    by (cases xs; cases "tl xs"; cases "tl (tl xs)") auto
  have "map (\<lambda>i. (xs ! (3 * i), xs ! (3 * i + 1))) [0 ..< Suc n]
          = (x, y) # map (\<lambda>i. (rest ! (3 * i), rest ! (3 * i + 1))) [0 ..< n]"
  proof -
    have "[0 ..< Suc n] = 0 # map Suc [0 ..< n]"
      by (simp add: upt_conv_Cons map_Suc_upt del: upt_Suc)
    then show ?thesis unfolding xs by (simp add: comp_def del: upt_Suc)
  qed
  with Suc.IH[OF len] xs show ?case by simp
qed

lemmas offsets = LEFT_HAND_START_def LEFT_HAND_END_def RIGHT_HAND_START_def RIGHT_HAND_END_def

lemma slice_nth:
  assumes "a + n \<le> length xs"
  shows "slice a (a + n) xs = map (\<lambda>i. xs ! (a + i)) [0 ..< n]"
  using assms by (auto simp: slice_def list_eq_iff_nth_eq)

lemma slice_blocks:
  assumes "length frame = 1662"
  shows "slice LEFT_HAND_START LEFT_HAND_END frame = left_block frame"
    and "slice RIGHT_HAND_START RIGHT_HAND_END frame = right_block frame"
proof -
  have "slice 1536 (1536 + 63) frame = left_block frame"
    unfolding left_block_def using assms by (intro slice_nth) simp
  then show "slice LEFT_HAND_START LEFT_HAND_END frame = left_block frame"
    by (simp add: offsets)
  have "slice 1599 (1599 + 63) frame = right_block frame"
    unfolding right_block_def using assms by (intro slice_nth) simp
  then show "slice RIGHT_HAND_START RIGHT_HAND_END frame = right_block frame"
    by (simp add: offsets)
qed

lemma hand_active_block_active: "hand_active block = block_active block"
  by (simp add: hand_active_def block_active_def list_ex_iff)

lemma length_blocks [simp]: "length (left_block frame) = 63" "length (right_block frame) = 63"
  by (simp_all add: left_block_def right_block_def)

lemma extract_one_hand:
  assumes "length frame = 1662" and "one_hand_active frame"
  shows "extract_hand_from_holistic frame
           = Inr \<lparr> hand_landmarks = Some (block_points (active_hand_block frame)),
                   handedness = Some (active_side frame), multi_hand = False,
                   skip_inference = False \<rparr>"
proof -
  have l: "xy_points (left_block frame) = Inr (block_points (left_block frame))"
    unfolding block_points_def by (rule xy_points_multiple) simp
  have r: "xy_points (right_block frame) = Inr (block_points (right_block frame))"
    unfolding block_points_def by (rule xy_points_multiple) simp
  show ?thesis
    using assms(2) l r
    by (auto simp: extract_hand_from_holistic_def slice_blocks[OF assms(1)]
          hand_active_block_active one_hand_active_def active_hand_block_def active_side_def
          Let_def)
qed

subsection \<open>Normalisation\<close>

lemma relative_loop_Suc:
  "relative_loop base (List.enumerate (Suc k) ps)
     = map (\<lambda>p. (fst p - fst base, snd p - snd base)) ps"
  by (induction ps arbitrary: k) (simp_all add: Let_def)

lemma relative_loop_translate:
  "relative_loop (0, 0) (List.enumerate 0 pts)
     = map (\<lambda>p. (fst p - fst (hd pts), snd p - snd (hd pts))) pts"
  by (cases pts) (simp_all add: Let_def relative_loop_Suc)

lemma length_flatten_points [simp]: "length (flatten_points pts) = 2 * length pts"
  by (induction pts) (simp_all add: flatten_points_def)

lemma flatten_points_Cons: "flatten_points (p # ps) = fst p # snd p # flatten_points ps"
  by (simp add: flatten_points_def)

lemma flatten_points_nth:
  "k < 2 * length ps \<Longrightarrow>
   flatten_points ps ! k = (if even k then fst (ps ! (k div 2)) else snd (ps ! (k div 2)))"
proof (induction ps arbitrary: k)
  case Nil
  then show ?case by simp
next
  case (Cons p ps)
  show ?case
  proof (cases k)
    case 0
    then show ?thesis by (simp add: flatten_points_Cons)
  next
    case (Suc k1)
    show ?thesis
    proof (cases k1)
      case 0
      with Suc show ?thesis by (simp add: flatten_points_Cons)
    next
      case (Suc k2)
      with \<open>k = Suc k1\<close> Cons.prems have "k2 < 2 * length ps" by simp
      from Cons.IH[OF this] Suc \<open>k = Suc k1\<close> show ?thesis
        by (simp add: flatten_points_Cons)
    qed
  qed
qed

lemma flatten_translated:
  "flatten_points (relative_loop (0, 0) (List.enumerate 0 pts))
     = map (translated pts) [0 ..< 2 * length pts]"
proof (rule nth_equalityI)
  show "length (flatten_points (relative_loop (0, 0) (List.enumerate 0 pts)))
          = length (map (translated pts) [0 ..< 2 * length pts])"
    by (simp add: relative_loop_translate)
next
  fix k
  assume "k < length (flatten_points (relative_loop (0, 0) (List.enumerate 0 pts)))"
  then have k: "k < 2 * length pts" by (simp add: relative_loop_translate)
  then have d: "k div 2 < length pts" by simp
  from k have ne: "pts \<noteq> []" by auto
  show "flatten_points (relative_loop (0, 0) (List.enumerate 0 pts)) ! k
          = map (translated pts) [0 ..< 2 * length pts] ! k"
    using k d by (simp add: relative_loop_translate flatten_points_nth translated_def
        hd_conv_nth[OF ne])
qed

lemma py_max_Max: "xs \<noteq> [] \<Longrightarrow> py_max xs = Inr (Max (set xs))"
proof (cases xs)
  case Nil
  assume "xs \<noteq> []"
  with Nil show ?thesis by simp
next
  case (Cons a list)
  have "Max (set (a # list)) = fold max list a" by (rule Max.set_eq_fold)
  with Cons show ?thesis by simp
qed

lemma spec_scale_normalize: "normalize_value m = spec_scale m"
  by (auto simp: normalize_value_def spec_scale_def fun_eq_iff)

lemma pre_process_landmark_spec:
  assumes "pts \<noteq> []"
  shows "pre_process_landmark pts = Inr (spec_normalize pts)"
proof -
  have ne: "map abs (map (translated pts) [0 ..< 2 * length pts]) \<noteq> []"
    using assms by simp
  have m: "Max (set (map abs (map (translated pts) [0 ..< 2 * length pts])))
             = max_abs_translated pts"
    by (simp add: max_abs_translated_def comp_def)
  show ?thesis
    unfolding pre_process_landmark_def flatten_translated Let_def py_max_Max[OF ne] m
    by (simp add: spec_normalize_def spec_scale_normalize)
qed

lemma spec_normalize_shape:
  assumes "pts \<noteq> []"
  shows "length (spec_normalize pts) = 2 * length pts"
    and "spec_normalize pts ! 0 = 0"
    and "spec_normalize pts ! 1 = 0"
proof -
  from assms have l: "0 < 2 * length pts" "1 < 2 * length pts" by (cases pts; simp)+
  show "length (spec_normalize pts) = 2 * length pts"
    by (simp add: spec_normalize_def)
  show "spec_normalize pts ! 0 = 0"
    unfolding spec_normalize_def using l(1)
    by (simp add: translated_def spec_scale_def del: upt_Suc)
  show "spec_normalize pts ! 1 = 0"
    unfolding spec_normalize_def using l(2)
    by (simp add: translated_def spec_scale_def del: upt_Suc)
qed

subsection \<open>The call of the classifier\<close>

lemma argmax_loop_first_max:
  assumes "best_i < length pre" and "best = pre ! best_i" and "i = length pre"
      and "\<forall>j < length pre. pre ! j \<le> pre ! best_i"
      and "\<forall>j < best_i. pre ! j < pre ! best_i"
  shows "first_max (pre @ xs) (argmax_loop xs i best_i best)"
  using assms
proof (induction xs arbitrary: pre best_i best i)
  case Nil
  then show ?case by (simp add: first_max_def)
next
  case (Cons x xs)
  show ?case
  proof (cases "best < x")
    case True
    have "first_max ((pre @ [x]) @ xs) (argmax_loop xs (Suc i) i x)"
    proof (rule Cons.IH)
      show "i < length (pre @ [x])" using Cons.prems(3) by simp
      show "x = (pre @ [x]) ! i" using Cons.prems(3) by simp
      show "Suc i = length (pre @ [x])" using Cons.prems(3) by simp
      show "\<forall>j < length (pre @ [x]). (pre @ [x]) ! j \<le> (pre @ [x]) ! i"
        using Cons.prems True by (auto simp: nth_append less_Suc_eq intro: less_imp_le order_trans)
      show "\<forall>j < i. (pre @ [x]) ! j < (pre @ [x]) ! i"
        using Cons.prems True by (auto simp: nth_append intro: le_less_trans)
    qed
    with True show ?thesis by simp
  next
    case False
    have "first_max ((pre @ [x]) @ xs) (argmax_loop xs (Suc i) best_i best)"
    proof (rule Cons.IH)
      show "best_i < length (pre @ [x])" using Cons.prems(1) by simp
      show "best = (pre @ [x]) ! best_i" using Cons.prems(1,2) by (simp add: nth_append)
      show "Suc i = length (pre @ [x])" using Cons.prems(3) by simp
      show "\<forall>j < length (pre @ [x]). (pre @ [x]) ! j \<le> (pre @ [x]) ! best_i"
        using Cons.prems False by (auto simp: nth_append less_Suc_eq)
      show "\<forall>j < best_i. (pre @ [x]) ! j < (pre @ [x]) ! best_i"
        using Cons.prems by (auto simp: nth_append)
    qed
    with False show ?thesis by simp
  qed
qed

lemma argmax_first_max:
  assumes "ps \<noteq> []"
  shows "\<exists>i. argmax ps = Inr i \<and> first_max ps i"
proof -
  from assms obtain p rest where ps: "ps = p # rest" by (cases ps) auto
  have "first_max ([p] @ rest) (argmax_loop rest 1 0 p)"
    by (rule argmax_loop_first_max) simp_all
  with ps show ?thesis by (simp add: argmax_def)
qed

lemma first_max_unique:
  assumes "first_max ps i" and "first_max ps j"
  shows "i = j"
proof (rule ccontr)
  assume "i \<noteq> j"
  then consider "i < j" | "j < i" by linarith
  then show False
  proof cases
    case 1
    with assms have "ps ! i < ps ! j" "ps ! j \<le> ps ! i" by (auto simp: first_max_def)
    then show False by simp
  next
    case 2
    with assms have "ps ! j < ps ! i" "ps ! i \<le> ps ! j" by (auto simp: first_max_def)
    then show False by simp
  qed
qed

lemma keypoint_classifier_call_accepts:
  assumes "length p = input_width it + 2"
  shows "fst (keypoint_classifier_call it p)
           = it\<lparr> input_tensor := drop 2 p, output_tensor := network it (drop 2 p),
                  invocations := invocations it @ [drop 2 p] \<rparr>"
    and "2 \<le> length (network it (drop 2 p)) \<longrightarrow>
           (\<exists>i. first_max (network it (drop 2 p)) i
               \<and> snd (keypoint_classifier_call it p) = Inr (i, network it (drop 2 p) ! i))"
proof -
  from assms have st: "set_tensor it (drop 2 p) = Inr (it\<lparr> input_tensor := drop 2 p \<rparr>)"
    by (simp add: set_tensor_def)
  show "fst (keypoint_classifier_call it p)
           = it\<lparr> input_tensor := drop 2 p, output_tensor := network it (drop 2 p),
                  invocations := invocations it @ [drop 2 p] \<rparr>"
    by (simp add: keypoint_classifier_call_def st invoke_def get_tensor_def Let_def
        split: sum.splits)
  show "2 \<le> length (network it (drop 2 p)) \<longrightarrow>
           (\<exists>i. first_max (network it (drop 2 p)) i
               \<and> snd (keypoint_classifier_call it p) = Inr (i, network it (drop 2 p) ! i))"
  proof
    assume l: "2 \<le> length (network it (drop 2 p))"
    then have "network it (drop 2 p) \<noteq> []" by auto
    from argmax_first_max[OF this] obtain i where
      i: "argmax (network it (drop 2 p)) = Inr i" "first_max (network it (drop 2 p)) i" by blast
    from l have "length (network it (drop 2 p)) \<noteq> 1" by simp
    with i show "\<exists>i. first_max (network it (drop 2 p)) i
               \<and> snd (keypoint_classifier_call it p) = Inr (i, network it (drop 2 p) ! i)"
      by (auto simp: keypoint_classifier_call_def st invoke_def get_tensor_def Let_def)
  qed
qed

subsection \<open>The prediction for a frame with one active hand\<close>

lemma prefix_take: "prefix ''ASL '' s \<longleftrightarrow> take 4 s = ''ASL ''"
proof
  assume "prefix ''ASL '' s"
  then obtain t where "s = ''ASL '' @ t" by (auto simp: prefix_def)
  then show "take 4 s = ''ASL ''" by simp
next
  assume "take 4 s = ''ASL ''"
  then have "s = ''ASL '' @ drop 4 s" by (metis append_take_drop_id)
  then show "prefix ''ASL '' s" by (metis prefixI)
qed

lemma predict_one_hand:
  assumes "length frame = 1662" and "one_hand_active frame" and "model_initialized svc"
  shows "predict_from_landmarks svc frame =
           (let r = keypoint_classifier_call (keypoint_classifier svc)
                      (spec_normalize (block_points (active_hand_block frame)));
                svc' = svc\<lparr> keypoint_classifier := fst r \<rparr>
            in case snd r of
                 Inl e \<Rightarrow> (svc', Inl (reraise e))
               | Inr (hand_sign_id, confidence) \<Rightarrow>
                   (svc', Inr (if hand_sign_id < length (keypoint_classifier_labels svc)
                               then Predicted
                                      (if take 4 (keypoint_classifier_labels svc ! hand_sign_id) = ''ASL ''
                                       then drop 4 (keypoint_classifier_labels svc ! hand_sign_id)
                                       else keypoint_classifier_labels svc ! hand_sign_id)
                                      confidence (Some (active_side frame))
                               else Predicted ''Unknown'' 0 (Some (active_side frame)))))"
proof -
  define p where "p = spec_normalize (block_points (active_hand_block frame))"
  have ne: "block_points (active_hand_block frame) \<noteq> []" by (simp add: block_points_def)
  have l: "length p = 42"
    unfolding p_def by (simp add: spec_normalize_shape(1)[OF ne]) (simp add: block_points_def)
  have pre: "pre_process_landmark (block_points (active_hand_block frame)) = Inr p"
    unfolding p_def by (rule pre_process_landmark_spec[OF ne])
  obtain it' r where call: "keypoint_classifier_call (keypoint_classifier svc) p = (it', r)"
    by (cases "keypoint_classifier_call (keypoint_classifier svc) p") auto
  show ?thesis
  proof (cases r)
    case (Inl e)
    show ?thesis
      unfolding predict_from_landmarks_def extract_one_hand[OF assms(1,2)]
        p_def[symmetric] call
      using assms(3) by (simp add: pre l call Inl)
  next
    case (Inr ic)
    obtain i conf where ic: "ic = (i, conf)" by (cases ic) auto
    show ?thesis
      unfolding predict_from_landmarks_def extract_one_hand[OF assms(1,2)]
        p_def[symmetric] call
      using assms(3) by (simp add: pre l call Inr ic Let_def prefix_take)
  qed
qed

text \<open>
  Claim C9 (classifier input shape). Take a frame of 1662 values with exactly one active
  hand, and a service whose model is initialised and whose network takes rows of 40
  values. Then the extractor yields the 21 (x, y) points of the active hand;
  \<open>pre_process_landmark\<close> returns the list of 42 reals in which the value with index
  \<open>2 * i\<close> (with index \<open>2 * i + 1\<close>) is the x (the y) coordinate of point \<open>i\<close>, translated
  by the wrist point and divided by the greatest absolute translated coordinate, or 0 when
  that maximum is zero; the first two of the 42 are zero; and \<open>predict_from_landmarks\<close>
  invokes the interpreter exactly once, on the last 40 of those values: on return the
  interpreter holds them as its input tensor, holds the network's answer to them as its
  output tensor, and its list of invocations has grown by that one row. When the answer has
  at least two probabilities, the response is the label and the probability of its argmax
  (the first index of the greatest probability), with the side of the active hand.
\<close>

theorem classifier_input_shape:
  assumes "length frame = 1662" and "one_hand_active frame"
      and "model_initialized svc" and "input_width (keypoint_classifier svc) = 40"
  defines "pts \<equiv> block_points (active_hand_block frame)"
      and "it \<equiv> keypoint_classifier svc"
  shows "extract_hand_from_holistic frame
           = Inr \<lparr> hand_landmarks = Some pts, handedness = Some (active_side frame),
                   multi_hand = False, skip_inference = False \<rparr>
       \<and> length pts = 21
       \<and> pre_process_landmark pts = Inr (spec_normalize pts)
       \<and> length (spec_normalize pts) = 42
       \<and> spec_normalize pts ! 0 = 0
       \<and> spec_normalize pts ! 1 = 0
       \<and> length (drop 2 (spec_normalize pts)) = 40
       \<and> fst (predict_from_landmarks svc frame)
           = svc\<lparr> keypoint_classifier :=
                    it\<lparr> input_tensor := drop 2 (spec_normalize pts),
                        output_tensor := network it (drop 2 (spec_normalize pts)),
                        invocations := invocations it @ [drop 2 (spec_normalize pts)] \<rparr> \<rparr>
       \<and> (2 \<le> length (network it (drop 2 (spec_normalize pts))) \<longrightarrow>
            (\<exists>i. first_max (network it (drop 2 (spec_normalize pts))) i
                \<and> snd (predict_from_landmarks svc frame)
                    = Inr (spec_response (keypoint_classifier_labels svc)
                             (network it (drop 2 (spec_normalize pts))) i (active_side frame))))"
proof -
  have len: "length pts = 21" by (simp add: pts_def block_points_def)
  then have ne: "pts \<noteq> []" by auto
  have ex: "extract_hand_from_holistic frame
           = Inr \<lparr> hand_landmarks = Some pts, handedness = Some (active_side frame),
                   multi_hand = False, skip_inference = False \<rparr>"
    unfolding pts_def by (rule extract_one_hand[OF assms(1,2)])
  have pre: "pre_process_landmark pts = Inr (spec_normalize pts)"
    by (rule pre_process_landmark_spec[OF ne])
  note sh = spec_normalize_shape[OF ne]
  have l42: "length (spec_normalize pts) = 42" using sh(1) len by simp
  then have l40: "length (drop 2 (spec_normalize pts)) = 40" by simp
  from l42 assms(4) have w: "length (spec_normalize pts) = input_width it + 2"
    by (simp add: it_def)
  note call = keypoint_classifier_call_accepts[OF w]
  note pr = predict_one_hand[OF assms(1,2,3), folded pts_def it_def]
  have st: "fst (predict_from_landmarks svc frame)
           = svc\<lparr> keypoint_classifier :=
                    it\<lparr> input_tensor := drop 2 (spec_normalize pts),
                        output_tensor := network it (drop 2 (spec_normalize pts)),
                        invocations := invocations it @ [drop 2 (spec_normalize pts)] \<rparr> \<rparr>"
    unfolding pr Let_def call(1)[symmetric] by (simp split: sum.splits prod.splits)
  have res: "\<exists>i. first_max (network it (drop 2 (spec_normalize pts))) i
                \<and> snd (predict_from_landmarks svc frame)
                    = Inr (spec_response (keypoint_classifier_labels svc)
                             (network it (drop 2 (spec_normalize pts))) i (active_side frame))"
    if "2 \<le> length (network it (drop 2 (spec_normalize pts)))"
  proof -
    from call(2) that obtain i where
      i: "first_max (network it (drop 2 (spec_normalize pts))) i"
         "snd (keypoint_classifier_call it (spec_normalize pts))
            = Inr (i, network it (drop 2 (spec_normalize pts)) ! i)" by blast
    have "snd (predict_from_landmarks svc frame)
            = Inr (spec_response (keypoint_classifier_labels svc)
                     (network it (drop 2 (spec_normalize pts))) i (active_side frame))"
      unfolding pr Let_def i(2) by (simp add: spec_response_def)
    with i(1) show ?thesis by blast
  qed
  from ex len pre l42 sh(2,3) l40 st res show ?thesis by blast
qed

text \<open>
  A network of another input width refuses the tensor: \<open>set_tensor\<close> raises, the
  interpreter is not invoked, and the service re-raises the \<open>ValueError\<close>.
\<close>

lemma classifier_refuses_other_width:
  assumes "length frame = 1662" and "one_hand_active frame"
      and "model_initialized svc" and "input_width (keypoint_classifier svc) \<noteq> 40"
  shows "predict_from_landmarks svc frame = (svc, Inl ValueError)"
proof -
  have ne: "block_points (active_hand_block frame) \<noteq> []" by (simp add: block_points_def)
  have l: "length (spec_normalize (block_points (active_hand_block frame))) = 42"
    by (simp add: spec_normalize_shape(1)[OF ne]) (simp add: block_points_def)
  with assms(4) have "keypoint_classifier_call (keypoint_classifier svc)
            (spec_normalize (block_points (active_hand_block frame)))
          = (keypoint_classifier svc, Inl ValueError)"
    by (simp add: keypoint_classifier_call_def set_tensor_def Let_def)
  then show ?thesis
    unfolding predict_one_hand[OF assms(1,2,3)] by (simp add: reraise_def)
qed

subsection \<open>The concrete frame\<close>

lemma frame_example_blocks:
  "length frame_example = 1662"
  "left_block frame_example = left_block_example"
  "right_block frame_example = replicate 63 0"
proof -
  show len: "length frame_example = 1662"
    by (simp add: frame_example_def left_block_example_def)
  have "slice LEFT_HAND_START LEFT_HAND_END frame_example = left_block_example"
    by (simp add: slice_def offsets frame_example_def left_block_example_def)
  then show "left_block frame_example = left_block_example"
    by (simp add: slice_blocks(1)[OF len])
  have "slice RIGHT_HAND_START RIGHT_HAND_END frame_example = replicate 63 0"
    by (simp add: slice_def offsets frame_example_def left_block_example_def)
  then show "right_block frame_example = replicate 63 0"
    by (simp add: slice_blocks(2)[OF len])
qed

lemma frame_example_active:
  "one_hand_active frame_example"
  "active_hand_block frame_example = left_block_example"
  "active_side frame_example = ''left''"
  by (simp_all add: one_hand_active_def active_hand_block_def active_side_def
        frame_example_blocks block_active_def left_block_example_def)

lemma left_block_example_points:
  "block_points left_block_example = (1 / 2, 1 / 2) # replicate 20 (3 / 5, 3 / 5)"
  by (auto simp: list_eq_iff_nth_eq block_points_def left_block_example_def nth_Cons'
        nth_append)

lemma left_block_example_translated:
  assumes "k < 42"
  shows "translated ((1 / 2, 1 / 2) # replicate 20 (3 / 5, 3 / 5)) k = (if k < 2 then 0 else 1 / 10)"
proof -
  from assms have "k div 2 - Suc 0 < 20" by simp
  moreover have "k div 2 = 0 \<longleftrightarrow> k < 2" by auto
  ultimately show ?thesis by (simp add: translated_def nth_Cons')
qed

lemma left_block_example_normalize:
  "spec_normalize (block_points left_block_example) = [0, 0] @ replicate 40 1"
proof -
  have m: "map (\<lambda>k. \<bar>translated ((1 / 2, 1 / 2) # replicate 20 (3 / 5, 3 / 5)) k\<bar>) [0 ..< 42]
             = [0, 0] @ replicate 40 (1 / 10)"
    by (auto simp: list_eq_iff_nth_eq left_block_example_translated nth_Cons' nth_append
        simp del: upt_Suc)
  have mx: "max_abs_translated ((1 / 2, 1 / 2) # replicate 20 (3 / 5, 3 / 5)) = 1 / 10"
    unfolding max_abs_translated_def using m by simp
  show ?thesis
    unfolding left_block_example_points spec_normalize_def mx
    by (auto simp: list_eq_iff_nth_eq left_block_example_translated nth_Cons' nth_append
        spec_scale_def simp del: upt_Suc)
qed

theorem classifier_input_shape_witness:
  "length frame_example = 1662
   \<and> one_hand_active frame_example
   \<and> model_initialized service_example
   \<and> input_width (keypoint_classifier service_example) = 40
   \<and> spec_normalize (block_points (active_hand_block frame_example)) = [0, 0] @ replicate 40 1
   \<and> invocations (keypoint_classifier (fst (predict_from_landmarks service_example frame_example)))
       = [replicate 40 1]
   \<and> snd (predict_from_landmarks service_example frame_example)
       = Inr (Predicted ''B'' (7 / 10) (Some ''left''))"
proof -
  have init: "model_initialized service_example"
    and width: "input_width (keypoint_classifier service_example) = 40"
    by (simp_all add: service_example_def interpreter_example_def)
  have p: "spec_normalize (block_points (active_hand_block frame_example)) = [0, 0] @ replicate 40 1"
    by (simp only: frame_example_active(2) left_block_example_normalize)
  have net: "network (keypoint_classifier service_example) (replicate 40 1) = [1 / 10, 7 / 10, 1 / 5]"
    by (simp add: service_example_def interpreter_example_def)
  note inst = classifier_input_shape[OF frame_example_blocks(1) frame_example_active(1) init width,
      unfolded p, simplified, unfolded net]
  from inst have st: "fst (predict_from_landmarks service_example frame_example)
        = service_example\<lparr> keypoint_classifier := (keypoint_classifier service_example)
             \<lparr> input_tensor := replicate 40 1, output_tensor := [1 / 10, 7 / 10, 1 / 5],
               invocations := invocations (keypoint_classifier service_example) @ [replicate 40 1] \<rparr> \<rparr>"
    by simp
  from inst obtain i where i: "first_max [1 / 10, 7 / 10, 1 / 5] i"
    and r: "snd (predict_from_landmarks service_example frame_example)
              = Inr (spec_response (keypoint_classifier_labels service_example)
                       [1 / 10, 7 / 10, 1 / 5] i (active_side frame_example))"
    by auto
  have "first_max [1 / 10, 7 / 10, 1 / 5] 1" by (simp add: first_max_def less_Suc_eq nth_Cons')
  from first_max_unique[OF i this] have "i = 1" .
  with r have res: "snd (predict_from_landmarks service_example frame_example)
       = Inr (Predicted ''B'' (7 / 10) (Some ''left''))"
    by (simp add: spec_response_def service_example_def frame_example_active(3))
  from st have inv: "invocations (keypoint_classifier (fst (predict_from_landmarks service_example frame_example)))
       = [replicate 40 1]"
    by (simp add: service_example_def interpreter_example_def)
  from frame_example_blocks(1) frame_example_active(1) init width p inv res show ?thesis
    by blast
qed
section \<open>Properties of alias validation\<close>

lemma score_loop_Cons:
  "score_loop ((s, a) # rest) acc
     = score_loop rest (acc + (if s = a then 1 else floored_prob s a))"
  by (auto simp: floored_prob_def max_def Let_def)

lemma score_loop_sum:
  "score_loop zs acc = acc + (\<Sum>(s, a) \<leftarrow> zs. if s = a then 1 else floored_prob s a)"
proof (induction zs arbitrary: acc)
  case Nil
  show ?case by simp
next
  case (Cons z zs)
  obtain s a where z: "z = (s, a)" by (cases z)
  show ?case
    unfolding z score_loop_Cons Cons by simp
qed

lemma zip_take_min:
  "zip (take (min (length xs) (length ys)) xs) (take (min (length xs) (length ys)) ys) = zip xs ys"
proof -
  have "zip (take (min (length xs) (length ys)) xs) (take (min (length xs) (length ys)) ys)
          = take (min (length xs) (length ys)) (zip xs ys)"
    by (simp add: take_zip)
  also have "\<dots> = zip xs ys" by simp
  finally show ?thesis .
qed

lemma confusion_weighted_edit_distance_spec:
  "confusion_weighted_edit_distance sf al =
     (if lev (strip_spaces_hyphens sf) (strip_spaces_hyphens al) > 2 then 0
      else spec_confusion_score sf al)"
  by (simp add: confusion_weighted_edit_distance_def spec_confusion_score_def Let_def
      levenshtein_distance_lev zip_take_min score_loop_sum
      del: levenshtein_distance.simps)

lemma regex_match_pattern:
  "length s \<le> 40 \<Longrightarrow> regex_match s \<longleftrightarrow> alias_pattern s"
proof -
  assume len: "length s \<le> 40"
  have "alias_pattern s"
    if "s \<noteq> []" "last s = CHR 0x0A" "alias_pattern (butlast s)"
  proof -
    from that(1) have s: "s = butlast s @ [last s]" by simp
    have "alias_char (CHR 0x0A)" by (simp add: alias_char_def is_space_def)
    with that(2,3) have "list_all alias_char (butlast s @ [last s])"
      by (simp add: alias_pattern_def)
    with s have "list_all alias_char s" by simp
    moreover from that(3) have "2 \<le> length s"
      unfolding alias_pattern_def length_butlast by linarith
    ultimately show ?thesis using len by (simp add: alias_pattern_def)
  qed
  then show ?thesis by (auto simp: regex_match_def)
qed

lemma validate_alias_unfold:
  "validate_alias sf al =
     (if \<not> alias_pattern (normalized al) then (False, 0)
      else if lev (strip_spaces_hyphens (normalized al)) (strip_spaces_hyphens (normalized sf)) > 2
      then (False, 0)
      else (1 / 2 \<le> spec_confusion_score (normalized sf) (normalized al),
            spec_confusion_score (normalized sf) (normalized al)))"
proof (cases "length (normalized al) < 2 \<or> length (normalized al) > 40")
  case True
  then have "\<not> alias_pattern (normalized al)" by (auto simp: alias_pattern_def)
  with True show ?thesis by (simp add: validate_alias_def normalized_def Let_def)
next
  case False
  then have "regex_match (normalized al) \<longleftrightarrow> alias_pattern (normalized al)"
    by (intro regex_match_pattern) simp
  with False show ?thesis
    by (auto simp: validate_alias_def normalized_def[symmetric] Let_def levenshtein_distance_lev
          confusion_weighted_edit_distance_spec lev_sym[of "strip_spaces_hyphens (normalized sf)"]
        simp del: levenshtein_distance.simps)
qed

text \<open>
  Claim C8 (alias validation), as the code has it. \<open>validate_alias\<close> first uppercases and
  trims both strings. It accepts if and only if the normalised alias matches
  \<open>[A-Z0-9\-\s]{2,40}\<close>, the Levenshtein distance between the stripped normalised alias
  and surface is at most 2, and the confusion-weighted score of the normalised strings is
  at least 0.5. On acceptance the returned score is that score; on rejection it is the
  score when only the score test failed, and 0 otherwise.
\<close>

theorem alias_validation:
  "(fst (validate_alias sf al) \<longleftrightarrow>
       alias_pattern (normalized al)
     \<and> lev (strip_spaces_hyphens (normalized al)) (strip_spaces_hyphens (normalized sf)) \<le> 2
     \<and> 1 / 2 \<le> spec_confusion_score (normalized sf) (normalized al))
   \<and> (fst (validate_alias sf al) \<longrightarrow>
        snd (validate_alias sf al) = spec_confusion_score (normalized sf) (normalized al))
   \<and> (\<not> fst (validate_alias sf al) \<longrightarrow>
        snd (validate_alias sf al)
          = (if alias_pattern (normalized al)
                \<and> lev (strip_spaces_hyphens (normalized al)) (strip_spaces_hyphens (normalized sf)) \<le> 2
             then spec_confusion_score (normalized sf) (normalized al) else 0))"
  by (simp add: validate_alias_unfold not_le)

lemmas alias_defs = validate_alias_def confusion_weighted_edit_distance_def get_confusion_prob_def
  char_to_idx_def is_known_confusion_def KNOWN_CONFUSION_PAIRS_def CONFUSION_MATRIX_def
  is_digit_def is_upper_def is_alpha_def is_space_def alias_char_def alias_pattern_def
  regex_match_def strip_ws_def strip_spaces_hyphens_def str_upper_def upper_char_def char_of_def
  enumerate_eq_zip Let_def

lemmas alias_spec_defs = spec_accepts_def spec_confusion_score_def floored_prob_def normalized_def

theorem alias_validation_witness:
  "alias_pattern (normalized ''AW6'')
   \<and> lev (strip_spaces_hyphens (normalized ''AW6'')) (strip_spaces_hyphens (normalized ''AWS'')) = 1
   \<and> spec_confusion_score (normalized ''AWS'') (normalized ''AW6'') = 2 / 3
   \<and> validate_alias ''AWS'' ''AW6'' = (True, 2 / 3)"
proof -
  have p: "alias_pattern (normalized ''AW6'')"
    and l: "lev (strip_spaces_hyphens (normalized ''AW6'')) (strip_spaces_hyphens (normalized ''AWS'')) = 1"
    and sc: "spec_confusion_score (normalized ''AWS'') (normalized ''AW6'') = 2 / 3"
    by (simp_all add: alias_defs alias_spec_defs)
  from alias_validation[of "''AWS''" "''AW6''"] p l sc
  have "fst (validate_alias ''AWS'' ''AW6'')" and "snd (validate_alias ''AWS'' ''AW6'') = 2 / 3"
    by simp_all
  then have "validate_alias ''AWS'' ''AW6'' = (True, 2 / 3)"
    by (cases "validate_alias ''AWS'' ''AW6''") simp
  with p l sc show ?thesis by blast
qed

text \<open>
  Claim C8 as stated fails, in both directions. For the surface \<open>A\<close> and the alias \<open>A\<close>
  followed by a space, the uppercased alias matches the pattern, the distance is 0 and the
  score is 1, yet \<open>validate_alias\<close> rejects with score 0: the trimmed alias has length 1.
  For the surface \<open>AB\<close> and the alias \<open>AB\<close> preceded by a tab, the score of the
  uppercased strings is 0, yet \<open>validate_alias\<close> accepts with score 1.
\<close>

theorem alias_validation_counterexample:
  "spec_accepts ''A'' ''A ''
   \<and> validate_alias ''A'' ''A '' = (False, 0)
   \<and> \<not> spec_accepts ''AB'' alias_tab
   \<and> validate_alias ''AB'' alias_tab = (True, 1)"
  by (simp add: alias_defs alias_spec_defs alias_tab_def)

end
